theory Spec2Isabelle
  imports Main "HOL-Library.AList"
begin

section \<open>Data model\<close>

text \<open>
  The repository builds a nested directory structure from the flat listing that the
  hosting API returns, renders it as text and (in the generator variant) filters it by a
  search term.  The code lives in two components:
  \<^item> \<^verbatim>\<open>src/app/repo-structure.tsx\<close>: \<^verbatim>\<open>generateStructure\<close> and
    \<^verbatim>\<open>buildStructureString\<close>;
  \<^item> \<^verbatim>\<open>src/app/generator/repo-tree-generator.tsx\<close>: \<^verbatim>\<open>filterStructure\<close>.

  Strings are byte lists (\<^typ>\<open>string\<close>); a character outside ASCII is its UTF-8
  encoding.  No operation below cuts a string inside a character: paths are split at
  \<^verbatim>\<open>/\<close> only, a byte that never occurs inside a multi-byte sequence.
\<close>

text \<open>\<^verbatim>\<open>interface TreeItem { path: string; type: string }\<close>\<close>

record TreeItem =
  path :: string
  type :: string

text \<open>
  \<^verbatim>\<open>type DirectoryMap = Map<string, DirectoryMap | { type: 'file' }>\<close>

  A value of a map is either the object \<^verbatim>\<open>{ type: 'file' }\<close> (\<open>File\<close>) or another
  map (\<open>Dir\<close>).  A JavaScript \<^verbatim>\<open>Map\<close> iterates in the order in which its keys were
  first inserted, so a map is an association list in that order.
\<close>

datatype node = File | Dir "(string \<times> node) list"

type_synonym DirectoryMap = "(string \<times> node) list"

subsection \<open>The operations of a JavaScript \<^verbatim>\<open>Map\<close>\<close>

text \<open>
  \<^verbatim>\<open>has\<close>, \<^verbatim>\<open>get\<close> (\<open>None\<close> is \<^verbatim>\<open>undefined\<close>) and \<^verbatim>\<open>set\<close>.  Setting a key that
  is present replaces its value and keeps its position; setting a new key appends it.
  That is what \<^const>\<open>AList.update\<close> does.
\<close>

definition Map_has :: "DirectoryMap \<Rightarrow> string \<Rightarrow> bool" where
  "Map_has m key = (map_of m key \<noteq> None)"

definition Map_get :: "DirectoryMap \<Rightarrow> string \<Rightarrow> node option" where
  "Map_get m key = map_of m key"

definition Map_set :: "string \<Rightarrow> node \<Rightarrow> DirectoryMap \<Rightarrow> DirectoryMap" where
  "Map_set key v m = AList.update key v m"

subsection \<open>String operations\<close>

text \<open>
  \<^verbatim>\<open>s.split('/')\<close>: the pieces between the separators; always at least one piece
  (\<^verbatim>\<open>''.split('/')\<close> is \<^verbatim>\<open>['']\<close>, \<^verbatim>\<open>'a//b'.split('/')\<close> is \<^verbatim>\<open>['a', '', 'b']\<close>).
  The accumulator \<open>cur\<close> is the piece being read.
\<close>

fun split_from :: "char \<Rightarrow> string \<Rightarrow> string \<Rightarrow> string list" where
  "split_from sep cur [] = [cur]"
| "split_from sep cur (c # cs) =
     (if c = sep then cur # split_from sep [] cs else split_from sep (cur @ [c]) cs)"

definition split :: "string \<Rightarrow> char \<Rightarrow> string list" where
  "split s sep = split_from sep [] s"

text \<open>
  \<^verbatim>\<open>s.toLowerCase()\<close> is a built-in of the language, defined by the case mappings of
  Unicode, and no part of this repository.  The functions below that call it take it as
  their first parameter, named \<open>toLowerCase\<close>, and what is proved about them holds for
  every function in its place; where a property needs a fact about the built-in
  (\<^verbatim>\<open>''.toLowerCase()\<close> is \<^verbatim>\<open>''\<close>), the fact is a hypothesis.

  \<open>asciiToLowerCase\<close> is what the built-in does on a string of ASCII characters: the
  letters \<^verbatim>\<open>A\<close> to \<^verbatim>\<open>Z\<close> become \<^verbatim>\<open>a\<close> to \<^verbatim>\<open>z\<close>, every other character stays.
  It stands for the parameter only where a theorem is applied to ASCII names.
\<close>

definition lowerChar :: "char \<Rightarrow> char" where
  "lowerChar c =
     (let n = (of_char c :: nat) in if 65 \<le> n \<and> n \<le> 90 then char_of (n + 32) else c)"

definition asciiToLowerCase :: "string \<Rightarrow> string" where
  "asciiToLowerCase s = map lowerChar s"

text \<open>\<^verbatim>\<open>s.includes(t)\<close>: \<open>t\<close> occurs in \<open>s\<close> as a contiguous substring.\<close>

fun str_includes :: "string \<Rightarrow> string \<Rightarrow> bool" where
  "str_includes [] t = (t = [])"
| "str_includes (c # cs) t = (take (length t) (c # cs) = t \<or> str_includes cs t)"

section \<open>\<^verbatim>\<open>generateStructure\<close>: building the structure\<close>

text \<open>
  \<^verbatim>\<open>
  parts.forEach((part, index) => {
    if (!(currentLevel instanceof Map)) return
    if (!currentLevel.has(part)) currentLevel.set(part, new Map())
    if (index === parts.length - 1 && item.type === 'blob') {
      currentLevel.set(part, { type: 'file' })
    }
    currentLevel = currentLevel.get(part)!
  })
  \<close>
  \<open>insertParts currentLevel parts ty\<close> is the inner loop over the parts that are left,
  started at a level that is a map; \<open>rest = []\<close> is \<^verbatim>\<open>index === parts.length - 1\<close>.
  The source walks down by reference and mutates the maps in place.  Every map object
  is stored under exactly one key of one parent (it is stored once, when it is
  created), so the mutation of the child is the replacement of the value at \<open>part\<close> by
  the updated child, which keeps the position of \<open>part\<close>.  When the value at \<open>part\<close> is
  not a map the remaining iterations return at once and change nothing.  The section on
  the heap below models the references and the mutation as they are, and
  \<open>insertPartsH_refines\<close> proves that this reading as a tree agrees with it.
\<close>

fun insertParts :: "DirectoryMap \<Rightarrow> string list \<Rightarrow> string \<Rightarrow> DirectoryMap" where
  "insertParts currentLevel [] ty = currentLevel"
| "insertParts currentLevel (part # rest) ty =
     (let l1 = (if \<not> Map_has currentLevel part
                then Map_set part (Dir []) currentLevel else currentLevel);
          l2 = (if rest = [] \<and> ty = ''blob'' then Map_set part File l1 else l1)
      in case Map_get l2 part of
           Some (Dir sub) \<Rightarrow> Map_set part (Dir (insertParts sub rest ty)) l2
         | _ \<Rightarrow> l2)"

text \<open>The body of the outer \<^verbatim>\<open>tree.forEach\<close>: one item, walked from the root.\<close>

definition insertItem :: "DirectoryMap \<Rightarrow> TreeItem \<Rightarrow> DirectoryMap" where
  "insertItem structureMap item = insertParts structureMap (split (path item) CHR ''/'') (type item)"

text \<open>
  The map-construction phase of \<^verbatim>\<open>generateStructure\<close> (the specification's
  \<open>build\<close>): the items are inserted from left to right into an empty map.
\<close>

definition generateStructureMap :: "TreeItem list \<Rightarrow> DirectoryMap" where
  "generateStructureMap tree = foldl insertItem [] tree"

section \<open>\<^verbatim>\<open>buildStructureString\<close>: rendering\<close>

text \<open>
  The branch mark is U+251C U+2500 U+2500 and a space, the indentation unit is U+2502
  and three spaces, both in UTF-8.
\<close>

definition branch :: string where
  "branch = [CHR 0xE2, CHR 0x94, CHR 0x9C, CHR 0xE2, CHR 0x94, CHR 0x80,
             CHR 0xE2, CHR 0x94, CHR 0x80, CHR 0x20]"

definition indentUnit :: string where
  "indentUnit = [CHR 0xE2, CHR 0x94, CHR 0x82, CHR 0x20, CHR 0x20, CHR 0x20]"

definition newline :: string where
  "newline = [CHR 0x0A]"

text \<open>
  \<^verbatim>\<open>
  let result = ''
  for (const [key, value] of map.entries()) {
    if (key === 'type') continue
    result += `${prefix}<branch>${key}\n`
    if (value instanceof Map) result += buildStructureString(value, `${prefix}<indent>`)
  }
  return result
  \<close>
\<close>

fun buildStructureString :: "DirectoryMap \<Rightarrow> string \<Rightarrow> string" where
  "buildStructureString [] prefix = []"
| "buildStructureString ((key, v) # rest) prefix =
     (if key = ''type'' then buildStructureString rest prefix
      else prefix @ branch @ key @ newline
           @ (case v of Dir sub \<Rightarrow> buildStructureString sub (prefix @ indentUnit)
                      | File \<Rightarrow> [])
           @ buildStructureString rest prefix)"

text \<open>\<^verbatim>\<open>generateStructure\<close> of \<^verbatim>\<open>repo-structure.tsx\<close>: build, then render.\<close>

definition generateStructure :: "TreeItem list \<Rightarrow> string" where
  "generateStructure tree = buildStructureString (generateStructureMap tree) []"

section \<open>\<^verbatim>\<open>filterStructure\<close>\<close>

text \<open>
  \<^verbatim>\<open>
  const filteredMap: DirectoryMap = new Map()
  for (const [key, value] of map.entries()) {
    if (value && typeof value === 'object' && 'type' in value && value.type === 'file') {
      if (key.toLowerCase().includes(term.toLowerCase())) filteredMap.set(key, value)
    } else if (value instanceof Map) {
      const filteredSubMap = filterStructure(value, term)
      if (filteredSubMap.size > 0 || key.toLowerCase().includes(term.toLowerCase()))
        filteredMap.set(key, filteredSubMap)
    }
  }
  return filteredMap
  \<close>
  \<open>filterLoop\<close> is the loop, with \<open>filteredMap\<close> as its accumulator.
\<close>

fun filterStructure :: "(string \<Rightarrow> string) \<Rightarrow> DirectoryMap \<Rightarrow> string \<Rightarrow> DirectoryMap"
  and filterLoop ::
    "(string \<Rightarrow> string) \<Rightarrow> DirectoryMap \<Rightarrow> string \<Rightarrow> DirectoryMap \<Rightarrow> DirectoryMap" where
  "filterStructure toLowerCase m term = filterLoop toLowerCase m term []"
| "filterLoop toLowerCase [] term filteredMap = filteredMap"
| "filterLoop toLowerCase ((key, File) # rest) term filteredMap =
     filterLoop toLowerCase rest term
       (if str_includes (toLowerCase key) (toLowerCase term)
        then Map_set key File filteredMap else filteredMap)"
| "filterLoop toLowerCase ((key, Dir sub) # rest) term filteredMap =
     (let filteredSubMap = filterStructure toLowerCase sub term
      in filterLoop toLowerCase rest term
           (if length filteredSubMap > 0 \<or> str_includes (toLowerCase key) (toLowerCase term)
            then Map_set key (Dir filteredSubMap) filteredMap else filteredMap))"

section \<open>Observations used to state the properties\<close>

text \<open>
  \<open>nodeAt m p\<close> is the node that the path \<open>p\<close> (a list of names) leads to from the map
  \<open>m\<close>: the map itself for the empty path, \<open>None\<close> when a name is missing or the path
  continues below a file.
\<close>

fun nodeAt :: "DirectoryMap \<Rightarrow> string list \<Rightarrow> node option" where
  "nodeAt m [] = Some (Dir m)"
| "nodeAt m (k # ks) =
     (case map_of m k of
        None \<Rightarrow> None
      | Some File \<Rightarrow> (if ks = [] then Some File else None)
      | Some (Dir sub) \<Rightarrow> nodeAt sub ks)"

text \<open>\<open>blocked m p\<close>: walking along \<open>p\<close> from \<open>m\<close> meets a file, at \<open>p\<close> or above it.\<close>

fun blocked :: "DirectoryMap \<Rightarrow> string list \<Rightarrow> bool" where
  "blocked m [] = False"
| "blocked m (k # ks) =
     (case map_of m k of
        None \<Rightarrow> False
      | Some File \<Rightarrow> True
      | Some (Dir sub) \<Rightarrow> blocked sub ks)"

text \<open>
  \<open>nextSegment p parts\<close> is the name that follows \<open>p\<close> in \<open>parts\<close> when \<open>p\<close> is a proper
  prefix of \<open>parts\<close>: the child of the directory \<open>p\<close> that an item with these parts
  lies in or is.
\<close>

fun nextSegment :: "string list \<Rightarrow> string list \<Rightarrow> string option" where
  "nextSegment [] [] = None"
| "nextSegment [] (s # ss) = Some s"
| "nextSegment (k # ks) [] = None"
| "nextSegment (k # ks) (s # ss) = (if k = s then nextSegment ks ss else None)"

text \<open>
  First-insertion order, in the words of the specification: the names that the items
  put below the directory \<open>p\<close>, in the order of the input, each at its first occurrence.
\<close>

fun firstOccurrences :: "'a list \<Rightarrow> 'a list" where
  "firstOccurrences [] = []"
| "firstOccurrences (x # xs) = x # removeAll x (firstOccurrences xs)"

definition childNames :: "string list \<Rightarrow> TreeItem list \<Rightarrow> string list" where
  "childNames p tree = List.map_filter (\<lambda>item. nextSegment p (split (path item) CHR ''/'')) tree"

definition firstInsertionOrder :: "string list \<Rightarrow> TreeItem list \<Rightarrow> string list" where
  "firstInsertionOrder p tree = firstOccurrences (childNames p tree)"

text \<open>
  The invariant of a JavaScript \<^verbatim>\<open>Map\<close> that an association list does not have by
  itself: no key occurs twice, at any level.
\<close>

fun uniqueKeys :: "DirectoryMap \<Rightarrow> bool" where
  "uniqueKeys [] = True"
| "uniqueKeys ((key, v) # rest) =
     (key \<notin> fst ` set rest \<and> (case v of Dir sub \<Rightarrow> uniqueKeys sub | File \<Rightarrow> True) \<and> uniqueKeys rest)"

text \<open>The test of \<^verbatim>\<open>filterStructure\<close>: \<^verbatim>\<open>key.toLowerCase().includes(term.toLowerCase())\<close>.\<close>

definition matches :: "(string \<Rightarrow> string) \<Rightarrow> string \<Rightarrow> string \<Rightarrow> bool" where
  "matches toLowerCase key t = str_includes (toLowerCase key) (toLowerCase t)"

text \<open>
  What one run of the inner loop of \<^verbatim>\<open>generateStructure\<close> makes of the value under
  its first part (\<open>old\<close>, \<open>None\<close> when the key is absent); see \<open>map_of_insertParts\<close>.
\<close>

definition stepNode :: "node option \<Rightarrow> string list \<Rightarrow> string \<Rightarrow> node" where
  "stepNode old rest ty =
     (if rest = [] \<and> ty = ''blob'' then File
      else case old of
             None \<Rightarrow> Dir (insertParts [] rest ty)
           | Some File \<Rightarrow> File
           | Some (Dir sub) \<Rightarrow> Dir (insertParts sub rest ty))"


section \<open>The same code on a heap of \<^verbatim>\<open>Map\<close> objects\<close>

text \<open>
  The definitions above read the structure as a tree.  In the source it is a graph of
  \<^verbatim>\<open>Map\<close> objects that hold references to each other, and the walk of
  \<^verbatim>\<open>generateStructure\<close> mutates these objects through the reference in
  \<^verbatim>\<open>currentLevel\<close>.  Whether the recursions of \<^verbatim>\<open>buildStructureString\<close> and
  \<^verbatim>\<open>filterStructure\<close> come to an end, and how deep they go, depends on the shape of
  that graph, so this section models it: a heap maps addresses to \<^verbatim>\<open>Map\<close> objects,
  a value stored in a \<^verbatim>\<open>Map\<close> is the file object or the address of a \<^verbatim>\<open>Map\<close>,
  and \<open>fresh\<close> is the next unused address.
\<close>

datatype jsval = FileObject | MapRef nat

record heap =
  objects :: "nat \<Rightarrow> (string \<times> jsval) list"
  fresh :: nat

text \<open>\<^verbatim>\<open>new Map()\<close> and \<^verbatim>\<open>m.set(key, v)\<close> for the \<^verbatim>\<open>Map\<close> at address \<open>a\<close>.\<close>

definition emptyHeap :: heap where
  "emptyHeap = \<lparr>objects = (\<lambda>a. []), fresh = 0\<rparr>"

definition newMap :: "heap \<Rightarrow> nat \<times> heap" where
  "newMap h = (fresh h, \<lparr>objects = (objects h)(fresh h := []), fresh = Suc (fresh h)\<rparr>)"

definition setIn :: "nat \<Rightarrow> string \<Rightarrow> jsval \<Rightarrow> heap \<Rightarrow> heap" where
  "setIn a key v h = h\<lparr>objects := (objects h)(a := AList.update key v (objects h a))\<rparr>"

text \<open>
  The inner loop of \<^verbatim>\<open>generateStructure\<close>, statement by statement.
  \<open>currentLevel\<close> is \<open>None\<close> when it is \<^verbatim>\<open>undefined\<close>.  When it is not a
  \<^verbatim>\<open>Map\<close> the callback returns and \<^verbatim>\<open>forEach\<close> goes on to the next part.
\<close>

fun insertPartsH :: "heap \<Rightarrow> jsval option \<Rightarrow> string list \<Rightarrow> string \<Rightarrow> heap" where
  "insertPartsH h currentLevel [] ty = h"
| "insertPartsH h currentLevel (part # rest) ty =
     (case currentLevel of
        Some (MapRef a) \<Rightarrow>
          (let h1 = (if map_of (objects h a) part = None
                     then (case newMap h of (b, h') \<Rightarrow> setIn a part (MapRef b) h') else h);
               h2 = (if rest = [] \<and> ty = ''blob'' then setIn a part FileObject h1 else h1)
           in insertPartsH h2 (map_of (objects h2 a) part) rest ty)
      | _ \<Rightarrow> insertPartsH h currentLevel rest ty)"

text \<open>
  \<^verbatim>\<open>generateStructure\<close> up to the call of \<^verbatim>\<open>buildStructureString\<close>: the address
  of \<^verbatim>\<open>structureMap\<close> and the heap.
\<close>

definition generateStructureH :: "TreeItem list \<Rightarrow> nat \<times> heap" where
  "generateStructureH tree =
     (case newMap emptyHeap of (structureMap, h0) \<Rightarrow>
        (structureMap,
         foldl (\<lambda>h item. insertPartsH h (Some (MapRef structureMap))
                             (split (path item) CHR ''/'') (type item)) h0 tree))"

text \<open>
  The recursions of \<^verbatim>\<open>buildStructureString\<close> and \<^verbatim>\<open>filterStructure\<close> use one
  frame of the call stack for each call that is open.  The engine gives the stack a
  fixed size, and a call that finds it full raises \<^verbatim>\<open>RangeError: Maximum call stack
  size exceeded\<close>.  The size is a property of the engine and not of this code, so it is a
  parameter: \<open>stack\<close> is the number of calls of these two functions that can still be
  opened.  The calls of built-ins from the body of a call (\<^verbatim>\<open>entries\<close>, \<^verbatim>\<open>set\<close>,
  \<^verbatim>\<open>toLowerCase\<close>, \<^verbatim>\<open>includes\<close>) have returned when the next recursive call is
  made; they count as part of the frame of the call.  The functions of the sections
  above give the value that a call returns when the stack is large enough;
  \<open>renderH_outcome\<close> and \<open>filterH_outcome\<close> prove that, and say how large that is.
\<close>

datatype error = RangeError

text \<open>
  \<^verbatim>\<open>buildStructureString\<close> on the heap.  \<open>renderH\<close> is the loop over the entries of
  the \<^verbatim>\<open>Map\<close>, run inside a call that leaves room for \<open>stack\<close> more; the recursive
  call for a value that is a \<^verbatim>\<open>Map\<close> opens one of them.  An error raised in a
  recursive call is not caught, so it is the outcome of the whole call.
\<close>

fun renderH :: "nat \<Rightarrow> heap \<Rightarrow> (string \<times> jsval) list \<Rightarrow> string \<Rightarrow> error + string" where
  "renderH stack h [] prefix = Inr []"
| "renderH stack h ((key, v) # rest) prefix =
     (if key = ''type'' then renderH stack h rest prefix
      else case v of
             FileObject \<Rightarrow>
               (case renderH stack h rest prefix of
                  Inl e \<Rightarrow> Inl e
                | Inr r \<Rightarrow> Inr (prefix @ branch @ key @ newline @ r))
           | MapRef b \<Rightarrow>
               (case stack of
                  0 \<Rightarrow> Inl RangeError
                | Suc s \<Rightarrow>
                    (case renderH s h (objects h b) (prefix @ indentUnit) of
                       Inl e \<Rightarrow> Inl e
                     | Inr sub \<Rightarrow>
                         (case renderH stack h rest prefix of
                            Inl e \<Rightarrow> Inl e
                          | Inr r \<Rightarrow> Inr (prefix @ branch @ key @ newline @ sub @ r)))))"

definition buildStructureStringH :: "nat \<Rightarrow> heap \<Rightarrow> nat \<Rightarrow> string \<Rightarrow> error + string" where
  "buildStructureStringH stack h a prefix =
     (case stack of
        0 \<Rightarrow> Inl RangeError
      | Suc s \<Rightarrow> renderH s h (objects h a) prefix)"

text \<open>
  \<^verbatim>\<open>filterStructure\<close> on the heap, in the same way.  \<open>filterH\<close> is the loop over the
  entries of the \<^verbatim>\<open>Map\<close> that is filtered; \<open>filteredMap\<close> is the address of the
  \<^verbatim>\<open>Map\<close> that the call has created.  The loop writes to \<^verbatim>\<open>Map\<close>s created by the
  filter only, so the entries that it iterates over do not change under it.
\<close>

fun filterH ::
  "(string \<Rightarrow> string) \<Rightarrow> nat \<Rightarrow> heap \<Rightarrow> (string \<times> jsval) list \<Rightarrow> string \<Rightarrow> nat \<Rightarrow> error + heap"
  where
  "filterH toLowerCase stack h [] term filteredMap = Inr h"
| "filterH toLowerCase stack h ((key, FileObject) # rest) term filteredMap =
     filterH toLowerCase stack
       (if str_includes (toLowerCase key) (toLowerCase term)
        then setIn filteredMap key FileObject h else h)
       rest term filteredMap"
| "filterH toLowerCase stack h ((key, MapRef b) # rest) term filteredMap =
     (case stack of
        0 \<Rightarrow> Inl RangeError
      | Suc s \<Rightarrow>
          (case newMap h of (filteredSubMap, h1) \<Rightarrow>
             (case filterH toLowerCase s h1 (objects h1 b) term filteredSubMap of
                Inl e \<Rightarrow> Inl e
              | Inr h2 \<Rightarrow>
                  filterH toLowerCase stack
                    (if length (objects h2 filteredSubMap) > 0
                        \<or> str_includes (toLowerCase key) (toLowerCase term)
                     then setIn filteredMap key (MapRef filteredSubMap) h2 else h2)
                    rest term filteredMap)))"

definition filterStructureH ::
  "(string \<Rightarrow> string) \<Rightarrow> nat \<Rightarrow> heap \<Rightarrow> nat \<Rightarrow> string \<Rightarrow> error + (nat \<times> heap)" where
  "filterStructureH toLowerCase stack h a term =
     (case stack of
        0 \<Rightarrow> Inl RangeError
      | Suc s \<Rightarrow>
          (case newMap h of (filteredMap, h1) \<Rightarrow>
             (case filterH toLowerCase s h1 (objects h1 a) term filteredMap of
                Inl e \<Rightarrow> Inl e
              | Inr h' \<Rightarrow> Inr (filteredMap, h'))))"

text \<open>
  How deep the calls nest: \<open>renderNesting m\<close> is the number of calls that are open at
  most, below the call of \<^verbatim>\<open>buildStructureString\<close> on the directory \<open>m\<close>, and
  \<open>filterNesting m\<close> the same for \<^verbatim>\<open>filterStructure\<close>.  Both count the levels
  of directories below \<open>m\<close>; the rendering does not enter a directory named \<open>type\<close>.
\<close>

fun renderNesting :: "DirectoryMap \<Rightarrow> nat" where
  "renderNesting [] = 0"
| "renderNesting ((key, File) # rest) = renderNesting rest"
| "renderNesting ((key, Dir sub) # rest) =
     (if key = ''type'' then renderNesting rest
      else max (Suc (renderNesting sub)) (renderNesting rest))"

fun filterNesting :: "DirectoryMap \<Rightarrow> nat" where
  "filterNesting [] = 0"
| "filterNesting ((key, File) # rest) = filterNesting rest"
| "filterNesting ((key, Dir sub) # rest) = max (Suc (filterNesting sub)) (filterNesting rest)"

text \<open>
  A deep input: \<open>deepPath n\<close> is the path \<^verbatim>\<open>d/d/.../d\<close> with \<open>n\<close> separators, and
  \<open>nestedDirs n\<close> is the structure that is built from it, a file below \<open>n\<close>
  directories.
\<close>

fun deepPath :: "nat \<Rightarrow> string" where
  "deepPath 0 = ''d''"
| "deepPath (Suc n) = ''d/'' @ deepPath n"

fun nestedDirs :: "nat \<Rightarrow> DirectoryMap" where
  "nestedDirs 0 = [(''d'', File)]"
| "nestedDirs (Suc n) = [(''d'', Dir (nestedDirs n))]"

text \<open>
  Every reference points from a \<^verbatim>\<open>Map\<close> to a \<^verbatim>\<open>Map\<close> that was created later (and
  has been created): the graph has no cycle.
\<close>

definition forward :: "heap \<Rightarrow> bool" where
  "forward h = (\<forall>a k b. (k, MapRef b) \<in> set (objects h a) \<longrightarrow> a < b \<and> b < fresh h)"

subsection \<open>The tree that a heap holds\<close>

text \<open>
  \<open>represents h es ms\<close>: the entries \<open>es\<close> of a \<^verbatim>\<open>Map\<close> in the heap \<open>h\<close> hold the
  tree \<open>ms\<close>: the same keys in the same order, the file object where the tree has a
  file, and where it has a directory a reference to a \<^verbatim>\<open>Map\<close> that holds that
  directory.  \<open>footprint h es ms\<close> is the set of the addresses of these \<^verbatim>\<open>Map\<close>s, at
  all levels.  No \<^verbatim>\<open>Map\<close> is shared: the footprints of different children are
  disjoint, and no \<^verbatim>\<open>Map\<close> lies below itself.
\<close>

fun footprint :: "heap \<Rightarrow> (string \<times> jsval) list \<Rightarrow> DirectoryMap \<Rightarrow> nat set" where
  "footprint h [] [] = {}"
| "footprint h ((key, FileObject) # es) ((key', File) # ms) = footprint h es ms"
| "footprint h ((key, MapRef b) # es) ((key', Dir sub) # ms) =
     insert b (footprint h (objects h b) sub \<union> footprint h es ms)"
| "footprint h es ms = {}"

fun represents :: "heap \<Rightarrow> (string \<times> jsval) list \<Rightarrow> DirectoryMap \<Rightarrow> bool" where
  "represents h [] [] = True"
| "represents h ((key, FileObject) # es) ((key', File) # ms) =
     (key = key' \<and> represents h es ms)"
| "represents h ((key, MapRef b) # es) ((key', Dir sub) # ms) =
     (key = key' \<and> represents h (objects h b) sub
      \<and> b \<notin> footprint h (objects h b) sub
      \<and> b \<notin> footprint h es ms
      \<and> footprint h (objects h b) sub \<inter> footprint h es ms = {}
      \<and> represents h es ms)"
| "represents h es ms = False"


text \<open>
  \<open>owns h a M\<close>: the \<^verbatim>\<open>Map\<close> at the address \<open>a\<close> holds the tree \<open>M\<close>, in allocated
  \<^verbatim>\<open>Map\<close>s other than itself.  \<open>evolves h a M h' M'\<close>: the heap \<open>h'\<close> comes from \<open>h\<close>
  by changes to the \<^verbatim>\<open>Map\<close> at \<open>a\<close>, to the \<^verbatim>\<open>Map\<close>s below it and to new ones
  only, and the \<^verbatim>\<open>Map\<close> at \<open>a\<close> then holds \<open>M'\<close>.
\<close>

definition owns :: "heap \<Rightarrow> nat \<Rightarrow> DirectoryMap \<Rightarrow> bool" where
  "owns h a M =
     (represents h (objects h a) M \<and> a \<notin> footprint h (objects h a) M \<and> a < fresh h
      \<and> footprint h (objects h a) M \<subseteq> {..<fresh h})"

definition evolves :: "heap \<Rightarrow> nat \<Rightarrow> DirectoryMap \<Rightarrow> heap \<Rightarrow> DirectoryMap \<Rightarrow> bool" where
  "evolves h a M h' M' =
     (owns h' a M'
      \<and> footprint h' (objects h' a) M' \<subseteq> footprint h (objects h a) M \<union> {fresh h..}
      \<and> fresh h \<le> fresh h'
      \<and> (\<forall>x<fresh h. x \<noteq> a \<longrightarrow> x \<notin> footprint h (objects h a) M \<longrightarrow> objects h' x = objects h x))"

text \<open>
  \<open>grows h f acc h' acc'\<close>: the same, with changes to the \<^verbatim>\<open>Map\<close> at \<open>f\<close> itself and
  to new \<^verbatim>\<open>Map\<close>s only.
\<close>

definition grows :: "heap \<Rightarrow> nat \<Rightarrow> DirectoryMap \<Rightarrow> heap \<Rightarrow> DirectoryMap \<Rightarrow> bool" where
  "grows h f acc h' acc' =
     (owns h' f acc'
      \<and> footprint h' (objects h' f) acc' \<subseteq> footprint h (objects h f) acc \<union> {fresh h..}
      \<and> fresh h \<le> fresh h'
      \<and> (\<forall>x<fresh h. x \<noteq> f \<longrightarrow> objects h' x = objects h x))"


section \<open>One item: the inner loop\<close>

lemma map_of_insertParts:
  "map_of (insertParts M (s # rest) ty) k =
     (if k = s then Some (stepNode (map_of M s) rest ty) else map_of M k)"
  by (cases "map_of M s")
     (auto simp: Let_def Map_has_def Map_get_def Map_set_def update_conv' stepNode_def
           split: option.splits node.splits)

lemma keys_insertParts:
  "map fst (insertParts M (s # rest) ty) =
     (if s \<in> fst ` set M then map fst M else map fst M @ [s])"
proof (cases "map_of M s")
  case None
  then have "s \<notin> fst ` set M" by (simp add: map_of_eq_None_iff)
  with None show ?thesis
    by (auto simp: Let_def Map_has_def Map_get_def Map_set_def update_keys update_conv'
             split: option.splits node.splits)
next
  case (Some v)
  then have "s \<in> fst ` set M" by (metis map_of_eq_None_iff option.distinct(1))
  with Some show ?thesis
    by (auto simp: Let_def Map_has_def Map_get_def Map_set_def update_keys update_conv'
             split: option.splits node.splits)
qed

lemma blocked_not_Dir: "blocked M p \<Longrightarrow> nodeAt M p \<noteq> Some (Dir m)"
  by (induction M p rule: blocked.induct) (auto split: option.splits node.splits)

lemma blocked_persists:
  "blocked M p \<Longrightarrow> blocked (insertParts M ps ty) p"
proof (induction ps arbitrary: M p)
  case Nil
  then show ?case by simp
next
  case (Cons s rest)
  show ?case
  proof (cases p)
    case Nil
    with Cons.prems show ?thesis by simp
  next
    case (Cons k ks)
    with Cons.prems Cons.IH show ?thesis
      by (auto simp: map_of_insertParts stepNode_def simp del: insertParts.simps
               split: option.splits node.splits)
  qed
qed


lemma keys_after_insert:
  "nodeAt M p = Some (Dir m) \<Longrightarrow>
     blocked (insertParts M ps ty) p \<or>
     (\<exists>m'. nodeAt (insertParts M ps ty) p = Some (Dir m') \<and>
           map fst m' = (case nextSegment p ps of
                           Some s \<Rightarrow> if s \<in> fst ` set m then map fst m else map fst m @ [s]
                         | None \<Rightarrow> map fst m))"
proof (induction ps arbitrary: M p m)
  case Nil
  then show ?case by (cases p) simp_all
next
  case (Cons s rest)
  show ?case
  proof (cases p)
    case Nil
    with Cons.prems show ?thesis
      by (simp add: keys_insertParts del: insertParts.simps)
  next
    case p: (Cons k ks)
    show ?thesis
    proof (cases "k = s")
      case False
      with p Cons.prems show ?thesis
        by (simp add: map_of_insertParts del: insertParts.simps)
    next
      case True
      with p Cons.prems obtain sub where
        sub: "map_of M s = Some (Dir sub)" "nodeAt sub ks = Some (Dir m)"
        by (auto split: option.splits node.splits if_splits)
      show ?thesis
      proof (cases "rest = [] \<and> ty = ''blob''")
        case True
        with \<open>k = s\<close> p sub show ?thesis
          by (simp add: map_of_insertParts stepNode_def del: insertParts.simps)
      next
        case False
        with Cons.IH [OF sub(2)] \<open>k = s\<close> p sub show ?thesis
          by (simp add: map_of_insertParts stepNode_def del: insertParts.simps)
      qed
    qed
  qed
qed

lemma walk_reaches:
  "nextSegment p ps = Some s' \<Longrightarrow>
     (\<exists>m. nodeAt (insertParts M ps ty) p = Some (Dir m)) \<or> blocked (insertParts M ps ty) p"
proof (induction ps arbitrary: M p)
  case Nil
  then show ?case by (cases p) simp_all
next
  case (Cons s rest)
  show ?case
  proof (cases p)
    case Nil
    then show ?thesis by simp
  next
    case p: (Cons k ks)
    with Cons.prems have ks: "k = s" "nextSegment ks rest = Some s'"
      by (auto split: if_splits)
    then have "rest \<noteq> []" by (cases ks) auto
    with Cons.IH [OF ks(2)] ks(1) p show ?thesis
      by (auto simp: map_of_insertParts stepNode_def simp del: insertParts.simps
               split: option.splits node.splits)
  qed
qed

lemma File_origin:
  "nodeAt (insertParts M ps ty) q = Some File \<Longrightarrow>
     nodeAt M q = Some File \<or> (ps = q \<and> ty = ''blob'')"
proof (induction ps arbitrary: M q)
  case Nil
  then show ?case by simp
next
  case (Cons s rest)
  show ?case
  proof (cases q)
    case Nil
    with Cons.prems show ?thesis by simp
  next
    case q: (Cons k ks)
    show ?thesis
    proof (cases "k = s")
      case False
      with q Cons.prems show ?thesis
        by (simp add: map_of_insertParts del: insertParts.simps)
    next
      case True
      have empty: "nodeAt [] ks \<noteq> Some File" by (cases ks) auto
      from True q Cons.prems Cons.IH [of "[]" ks] Cons.IH [of _ ks] empty show ?thesis
        by (auto simp: map_of_insertParts stepNode_def simp del: insertParts.simps
                 split: option.splits node.splits if_splits)
    qed
  qed
qed

lemma keys_created:
  "nodeAt (insertParts M ps ty) p = Some (Dir m') \<Longrightarrow> \<forall>m. nodeAt M p \<noteq> Some (Dir m) \<Longrightarrow>
     map fst m' = (case nextSegment p ps of Some s \<Rightarrow> [s] | None \<Rightarrow> [])"
proof (induction ps arbitrary: M p)
  case Nil
  then show ?case by simp
next
  case (Cons s rest)
  show ?case
  proof (cases p)
    case Nil
    with Cons.prems show ?thesis by simp
  next
    case p: (Cons k ks)
    show ?thesis
    proof (cases "k = s")
      case False
      with p Cons.prems show ?thesis
        by (simp add: map_of_insertParts del: insertParts.simps)
    next
      case True
      show ?thesis
      proof (cases "map_of M s")
        case None
        with True p Cons.prems(1) have new: "nodeAt (insertParts [] rest ty) ks = Some (Dir m')"
          by (auto simp: map_of_insertParts stepNode_def simp del: insertParts.simps
                   split: if_splits)
        show ?thesis
        proof (cases ks)
          case Nil
          with keys_after_insert [of "[]" "[]" "[]" rest ty] new True p show ?thesis
            by (auto split: option.splits)
        next
          case (Cons k' ks')
          then have "\<forall>m. nodeAt [] ks \<noteq> Some (Dir m)" by simp
          with Cons.IH [OF new] True p show ?thesis by simp
        qed
      next
        case (Some v)
        with True p Cons.prems Cons.IH [of _ ks] show ?thesis
          by (cases v)
             (auto simp: map_of_insertParts stepNode_def simp del: insertParts.simps
                   split: if_splits)
      qed
    qed
  qed
qed

lemma blocked_File_prefix: "blocked M p \<Longrightarrow> \<exists>q r. p = q @ r \<and> nodeAt M q = Some File"
proof (induction M p rule: blocked.induct)
  case (1 m)
  then show ?case by simp
next
  case (2 m k ks)
  show ?case
  proof (cases "map_of m k")
    case None
    with 2 show ?thesis by simp
  next
    case (Some v)
    show ?thesis
    proof (cases v)
      case File
      with Some have "k # ks = [k] @ ks \<and> nodeAt m [k] = Some File" by simp
      then show ?thesis by blast
    next
      case (Dir sub)
      with 2 Some obtain q r where "ks = q @ r" "nodeAt sub q = Some File" by auto
      with Some Dir have "k # ks = (k # q) @ r \<and> nodeAt m (k # q) = Some File"
        by (cases q) auto
      then show ?thesis by blast
    qed
  qed
qed

lemma nextSegment_iff: "nextSegment p ps = Some s \<longleftrightarrow> (\<exists>rest. ps = p @ s # rest)"
  by (induction p ps rule: nextSegment.induct) auto

section \<open>All items: invariants of the structure that is built\<close>

lemma generateStructureMap_snoc:
  "generateStructureMap (tree @ [item]) =
     insertParts (generateStructureMap tree) (split (path item) CHR ''/'') (type item)"
  by (simp add: generateStructureMap_def insertItem_def)

lemma set_firstOccurrences: "set (firstOccurrences xs) = set xs"
  by (induction xs) auto

lemma firstOccurrences_snoc:
  "firstOccurrences (xs @ [x]) =
     (if x \<in> set xs then firstOccurrences xs else firstOccurrences xs @ [x])"
  by (induction xs) auto

lemma childNames_snoc:
  "childNames p (tree @ [item]) =
     childNames p tree @ (case nextSegment p (split (path item) CHR ''/'') of
                            None \<Rightarrow> [] | Some s \<Rightarrow> [s])"
  by (simp add: childNames_def List.map_filter_def split: option.splits)

lemma childNames_Nil_iff:
  "childNames p tree = [] \<longleftrightarrow>
     (\<forall>item \<in> set tree. nextSegment p (split (path item) CHR ''/'') = None)"
  by (auto simp: childNames_def List.map_filter_def filter_empty_conv)

lemma ancestors_inv:
  "item \<in> set tree \<Longrightarrow> nextSegment p (split (path item) CHR ''/'') = Some s \<Longrightarrow>
     (\<exists>m. nodeAt (generateStructureMap tree) p = Some (Dir m)) \<or>
     blocked (generateStructureMap tree) p"
proof (induction tree rule: rev_induct)
  case Nil
  then show ?case by simp
next
  case (snoc x xs)
  show ?case
  proof (cases "item = x")
    case True
    with snoc.prems(2) have "nextSegment p (split (path x) CHR ''/'') = Some s" by simp
    then show ?thesis
      unfolding generateStructureMap_snoc by (rule walk_reaches)
  next
    case False
    with snoc have "(\<exists>m. nodeAt (generateStructureMap xs) p = Some (Dir m)) \<or>
        blocked (generateStructureMap xs) p" by simp
    then show ?thesis
    proof
      assume "\<exists>m. nodeAt (generateStructureMap xs) p = Some (Dir m)"
      then obtain m where "nodeAt (generateStructureMap xs) p = Some (Dir m)" ..
      from keys_after_insert [OF this] show ?thesis
        unfolding generateStructureMap_snoc by blast
    next
      assume "blocked (generateStructureMap xs) p"
      then show ?thesis
        unfolding generateStructureMap_snoc by (simp add: blocked_persists del: insertParts.simps)
    qed
  qed
qed

lemma File_inv:
  "nodeAt (generateStructureMap tree) q = Some File \<Longrightarrow>
     \<exists>item \<in> set tree. split (path item) CHR ''/'' = q \<and> type item = ''blob''"
proof (induction tree rule: rev_induct)
  case Nil
  then show ?case by (cases q) (simp_all add: generateStructureMap_def)
next
  case (snoc x xs)
  from snoc.prems File_origin
  have "nodeAt (generateStructureMap xs) q = Some File \<or>
        (split (path x) CHR ''/'' = q \<and> type x = ''blob'')"
    unfolding generateStructureMap_snoc by blast
  with snoc.IH show ?case by auto
qed

lemma order_inv:
  "nodeAt (generateStructureMap tree) p = Some (Dir m) \<Longrightarrow>
     map fst m = firstInsertionOrder p tree"
proof (induction tree arbitrary: m rule: rev_induct)
  case Nil
  then show ?case
    by (cases p) (simp_all add: generateStructureMap_def firstInsertionOrder_def childNames_def)
next
  case (snoc x xs)
  let ?M = "generateStructureMap xs"
  let ?ps = "split (path x) CHR ''/''"
  from snoc.prems have new: "nodeAt (insertParts ?M ?ps (type x)) p = Some (Dir m)"
    by (simp only: generateStructureMap_snoc)
  show ?case
  proof (cases "\<exists>m0. nodeAt ?M p = Some (Dir m0)")
    case True
    then obtain m0 where m0: "nodeAt ?M p = Some (Dir m0)" ..
    then have keys0: "map fst m0 = firstOccurrences (childNames p xs)"
      using snoc.IH by (simp add: firstInsertionOrder_def)
    then have set0: "fst ` set m0 = set (childNames p xs)"
      by (metis set_firstOccurrences set_map)
    from keys_after_insert [OF m0, of ?ps "type x"] new blocked_not_Dir
    have "map fst m = (case nextSegment p ?ps of
             Some s \<Rightarrow> if s \<in> fst ` set m0 then map fst m0 else map fst m0 @ [s]
           | None \<Rightarrow> map fst m0)"
      by fastforce
    with keys0 set0 show ?thesis
      by (simp add: firstInsertionOrder_def childNames_snoc firstOccurrences_snoc
               split: option.splits)
  next
    case False
    have "childNames p xs = []"
    proof (rule ccontr)
      assume "childNames p xs \<noteq> []"
      then obtain item s where "item \<in> set xs" "nextSegment p (split (path item) CHR ''/'') = Some s"
        by (auto simp: childNames_Nil_iff)
      from ancestors_inv [OF this] False have "blocked ?M p" by blast
      then have "blocked (insertParts ?M ?ps (type x)) p" by (rule blocked_persists)
      with new blocked_not_Dir show False by blast
    qed
    moreover from keys_created [OF new] False
    have "map fst m = (case nextSegment p ?ps of Some s \<Rightarrow> [s] | None \<Rightarrow> [])" by blast
    ultimately show ?thesis
      by (simp add: firstInsertionOrder_def childNames_snoc split: option.splits)
  qed
qed


lemma blocked_Nil: "\<not> blocked [] p"
  by (cases p) simp_all

lemma final_segment_step:
  "\<not> blocked M qs \<Longrightarrow>
     nodeAt (insertParts M (qs @ [part]) ty) (qs @ [part]) =
       Some (if ty = ''blob'' then File
             else case nodeAt M (qs @ [part]) of None \<Rightarrow> Dir [] | Some v \<Rightarrow> v)"
proof (induction qs arbitrary: M)
  case Nil
  then show ?case
    by (auto simp: map_of_insertParts stepNode_def simp del: insertParts.simps(2)
             split: option.splits node.splits)
next
  case (Cons k ks)
  have ne: "ks @ [part] \<noteq> []" by simp
  show ?case
  proof (cases "map_of M k")
    case None
    have "nodeAt [] (ks @ [part]) = None" by (cases ks) simp_all
    with Cons.IH [of "[]", OF blocked_Nil] None ne show ?thesis
      by (simp add: map_of_insertParts stepNode_def del: insertParts.simps)
  next
    case (Some v)
    with Cons.prems obtain sub where sub: "v = Dir sub" "\<not> blocked sub ks"
      by (cases v) simp_all
    from Cons.IH [OF sub(2)] Some sub(1) ne show ?thesis
      by (simp add: map_of_insertParts stepNode_def del: insertParts.simps)
  qed
qed

lemma update_same: "map_of M k = Some v \<Longrightarrow> AList.update k v M = M"
  by (induction M) (auto split: if_splits)

lemma blocked_unchanged: "blocked M qs \<Longrightarrow> insertParts M (qs @ rest) ty = M"
proof (induction qs arbitrary: M)
  case Nil
  then show ?case by simp
next
  case (Cons k ks)
  show ?case
  proof (cases "map_of M k")
    case None
    with Cons.prems show ?thesis by simp
  next
    case (Some v)
    show ?thesis
    proof (cases v)
      case File
      with Some show ?thesis
        by (simp add: Map_has_def Map_get_def Map_set_def Let_def update_same)
    next
      case (Dir sub)
      with Some Cons.prems have b: "blocked sub ks" by simp
      then have "ks \<noteq> []" by (cases ks) simp_all
      with Cons.IH [OF b] Some Dir show ?thesis
        by (simp add: Map_has_def Map_get_def Map_set_def Let_def update_same)
    qed
  qed
qed

lemma blocked_append: "blocked M q \<Longrightarrow> blocked M (q @ r)"
  by (induction M q rule: blocked.induct) (auto split: option.splits node.splits)

lemma blob_blocks: "ps \<noteq> [] \<Longrightarrow> blocked (insertParts M ps ''blob'') ps"
proof (induction ps arbitrary: M)
  case Nil
  then show ?case by simp
next
  case (Cons s rest)
  show ?case
  proof (cases "rest = []")
    case True
    then show ?thesis
      by (simp add: map_of_insertParts stepNode_def del: insertParts.simps)
  next
    case False
    with Cons.IH show ?thesis
      by (auto simp: map_of_insertParts stepNode_def simp del: insertParts.simps
               split: option.splits node.splits)
  qed
qed

lemma split_from_nonempty: "split_from sep cur s \<noteq> []"
  by (induction s arbitrary: cur) simp_all

lemma blob_blocked_inv:
  "b \<in> set tree \<Longrightarrow> type b = ''blob'' \<Longrightarrow>
     blocked (generateStructureMap tree) (split (path b) CHR ''/'')"
proof (induction tree rule: rev_induct)
  case Nil
  then show ?case by simp
next
  case (snoc x xs)
  show ?case
  proof (cases "b = x")
    case True
    with snoc.prems(2) show ?thesis
      unfolding generateStructureMap_snoc
      by (simp add: blob_blocks split_def split_from_nonempty del: insertParts.simps)
  next
    case False
    with snoc have "blocked (generateStructureMap xs) (split (path b) CHR ''/'')" by simp
    then show ?thesis
      unfolding generateStructureMap_snoc by (rule blocked_persists)
  qed
qed

section \<open>Filtering maps without repeated keys\<close>


lemma Map_set_fresh: "key \<notin> fst ` set m \<Longrightarrow> Map_set key v m = m @ [(key, v)]"
  by (induction m) (auto simp: Map_set_def)

lemma filterLoop_acc:
  "distinct (map fst m) \<Longrightarrow> fst ` set acc \<inter> fst ` set m = {} \<Longrightarrow>
     filterLoop lc m t acc = acc @ filterLoop lc m t []"
proof (induction m arbitrary: acc)
  case Nil
  then show ?case by simp
next
  case (Cons e rest)
  obtain key v where e: "e = (key, v)" by (cases e)
  from Cons.prems e have fresh: "key \<notin> fst ` set acc" "key \<notin> fst ` set rest"
    and d: "distinct (map fst rest)" and disj: "fst ` set acc \<inter> fst ` set rest = {}"
    by auto
  have step: "filterLoop lc rest t (acc @ [(key, w)]) = acc @ filterLoop lc rest t [(key, w)]" for w
  proof -
    from fresh disj have "fst ` set (acc @ [(key, w)]) \<inter> fst ` set rest = {}" by auto
    from Cons.IH [OF d this] have "filterLoop lc rest t (acc @ [(key, w)]) = (acc @ [(key, w)]) @ filterLoop lc rest t []" .
    moreover from fresh have "fst ` set [(key, w)] \<inter> fst ` set rest = {}" by auto
    from Cons.IH [OF d this] have "filterLoop lc rest t [(key, w)] = [(key, w)] @ filterLoop lc rest t []" .
    ultimately show ?thesis by simp
  qed
  from Cons.IH [OF d disj] have same: "filterLoop lc rest t acc = acc @ filterLoop lc rest t []" .
  show ?case
  proof (cases v)
    case File
    with e fresh step same show ?thesis
      by (simp add: Map_set_fresh Map_set_fresh [of _ "[]", simplified])
  next
    case (Dir sub)
    with e fresh step same show ?thesis
      by (simp add: Map_set_fresh Map_set_fresh [of _ "[]", simplified] Let_def)
  qed
qed

lemma filterStructure_Cons:
  assumes "key \<notin> fst ` set rest" "distinct (map fst rest)"
  shows "filterStructure lc ((key, v) # rest) t =
     (case v of
        File \<Rightarrow> if matches lc key t then [(key, File)] else []
      | Dir sub \<Rightarrow> if filterStructure lc sub t \<noteq> [] \<or> matches lc key t
                   then [(key, Dir (filterStructure lc sub t))] else [])
     @ filterStructure lc rest t"
proof -
  have "filterLoop lc rest t [(key, w)] = [(key, w)] @ filterLoop lc rest t []" for w
    using assms by (intro filterLoop_acc) auto
  then show ?thesis
    by (cases v) (simp_all add: Map_set_def matches_def Let_def)
qed

lemma uniqueKeys_distinct: "uniqueKeys m \<Longrightarrow> distinct (map fst m)"
  by (induction m rule: uniqueKeys.induct) auto

lemma uniqueKeys_sub: "uniqueKeys m \<Longrightarrow> map_of m k = Some (Dir sub) \<Longrightarrow> uniqueKeys sub"
  by (induction m rule: uniqueKeys.induct) (auto split: if_splits)


lemma map_of_filterStructure:
  "uniqueKeys m \<Longrightarrow>
     map_of (filterStructure lc m t) k =
       (case map_of m k of
          None \<Rightarrow> None
        | Some File \<Rightarrow> if matches lc k t then Some File else None
        | Some (Dir sub) \<Rightarrow>
            if filterStructure lc sub t \<noteq> [] \<or> matches lc k t
            then Some (Dir (filterStructure lc sub t)) else None)"
proof (induction m rule: uniqueKeys.induct)
  case 1
  then show ?case by simp
next
  case (2 key v rest)
  from "2.prems" have fresh: "key \<notin> fst ` set rest" and d: "distinct (map fst rest)"
    by (simp_all add: uniqueKeys_distinct)
  from fresh have none: "map_of rest key = None" by (simp add: map_of_eq_None_iff)
  from "2.prems" "2.IH"(2) have IH: "map_of (filterStructure lc rest t) k =
       (case map_of rest k of
          None \<Rightarrow> None
        | Some File \<Rightarrow> if matches lc k t then Some File else None
        | Some (Dir sub) \<Rightarrow>
            if filterStructure lc sub t \<noteq> [] \<or> matches lc k t
            then Some (Dir (filterStructure lc sub t)) else None)" by simp
  show ?case
  proof (cases "k = key")
    case True
    with IH none have "map_of (filterStructure lc rest t) key = None" by simp
    with True show ?thesis
      unfolding filterStructure_Cons [OF fresh d]
      by (cases v) (simp_all del: filterStructure.simps)
  next
    case False
    with IH show ?thesis
      unfolding filterStructure_Cons [OF fresh d]
      by (cases v) (simp_all del: filterStructure.simps)
  qed
qed

lemma leaf_filter:
  "uniqueKeys m \<Longrightarrow>
     nodeAt (filterStructure lc m t) ps = Some File \<longleftrightarrow>
       nodeAt m ps = Some File \<and> matches lc (last ps) t"
proof (induction ps arbitrary: m)
  case Nil
  then show ?case by simp
next
  case (Cons k ks)
  show ?case
  proof (cases "map_of m k")
    case None
    with Cons.prems show ?thesis
      by (simp add: map_of_filterStructure del: filterStructure.simps)
  next
    case (Some v)
    show ?thesis
    proof (cases v)
      case File
      with Some Cons.prems show ?thesis
        by (simp add: map_of_filterStructure del: filterStructure.simps)
    next
      case (Dir sub)
      with Some Cons.prems have u: "uniqueKeys sub" by (blast intro: uniqueKeys_sub)
      have gone: "filterStructure lc sub t = [] \<Longrightarrow> \<not> (nodeAt sub ks = Some File \<and> matches lc (last ks) t)"
        using Cons.IH [OF u] by (cases ks) auto
      have ne: "nodeAt sub ks = Some File \<Longrightarrow> ks \<noteq> []" by auto
      from Some Dir Cons.prems Cons.IH [OF u] gone ne show ?thesis
        by (auto simp: map_of_filterStructure simp del: filterStructure.simps)
    qed
  qed
qed


lemma dir_filter:
  "uniqueKeys m \<Longrightarrow> ps \<noteq> [] \<Longrightarrow>
     nodeAt (filterStructure lc m t) ps = Some (Dir d') \<longleftrightarrow>
       (\<exists>d. nodeAt m ps = Some (Dir d) \<and> d' = filterStructure lc d t
            \<and> (d' \<noteq> [] \<or> matches lc (last ps) t))"
proof (induction ps arbitrary: m)
  case Nil
  then show ?case by simp
next
  case (Cons k ks)
  show ?case
  proof (cases "map_of m k")
    case None
    with Cons.prems show ?thesis
      by (simp add: map_of_filterStructure del: filterStructure.simps)
  next
    case (Some v)
    show ?thesis
    proof (cases v)
      case File
      with Some Cons.prems show ?thesis
        by (simp add: map_of_filterStructure del: filterStructure.simps)
    next
      case (Dir sub)
      with Some Cons.prems have u: "uniqueKeys sub" by (blast intro: uniqueKeys_sub)
      show ?thesis
      proof (cases "ks = []")
        case True
        with Some Dir Cons.prems show ?thesis
          by (auto simp: map_of_filterStructure simp del: filterStructure.simps)
      next
        case False
        let ?f = "filterStructure lc sub t"
        have empty: "nodeAt [] ks = None" using False by (cases ks) simp_all
        have L: "nodeAt (filterStructure lc m t) (k # ks) =
                   (if ?f \<noteq> [] \<or> matches lc k t then nodeAt ?f ks else None)"
          using Some Dir Cons.prems(1)
          by (simp add: map_of_filterStructure del: filterStructure.simps)
        have R: "nodeAt m (k # ks) = nodeAt sub ks" using Some Dir by simp
        have l: "last (k # ks) = last ks" using False by simp
        note IH = Cons.IH [OF u False]
        show ?thesis
        proof (cases "?f \<noteq> [] \<or> matches lc k t")
          case True
          with IH show ?thesis unfolding L R l by (simp only: if_True)
        next
          case False
          then have "?f = []" by simp
          with IH empty have "\<not> (\<exists>d. nodeAt sub ks = Some (Dir d) \<and> d' = filterStructure lc d t
                \<and> (d' \<noteq> [] \<or> matches lc (last ks) t))"
            by (simp del: filterStructure.simps)
          with False show ?thesis unfolding L R l by (simp only: if_False) simp
        qed
      qed
    qed
  qed
qed

section \<open>The structure that is built has no repeated keys\<close>

lemma uniqueKeys_iff:
  "uniqueKeys m \<longleftrightarrow>
     distinct (map fst m) \<and> (\<forall>k sub. map_of m k = Some (Dir sub) \<longrightarrow> uniqueKeys sub)"
proof (induction m rule: uniqueKeys.induct)
  case 1
  then show ?case by simp
next
  case (2 key v rest)
  show ?case
  proof (cases "key \<in> fst ` set rest")
    case True
    then show ?thesis by simp
  next
    case False
    then have none: "map_of rest key = None" by (simp add: map_of_eq_None_iff)
    have other: "map_of rest k = Some w \<Longrightarrow> k \<noteq> key" for k w
      using none by auto
    have "(\<forall>k sub. map_of ((key, v) # rest) k = Some (Dir sub) \<longrightarrow> uniqueKeys sub) \<longleftrightarrow>
          (case v of Dir sub \<Rightarrow> uniqueKeys sub | File \<Rightarrow> True) \<and>
          (\<forall>k sub. map_of rest k = Some (Dir sub) \<longrightarrow> uniqueKeys sub)"
      (is "?L \<longleftrightarrow> ?R")
    proof
      assume L: ?L
      have "uniqueKeys sub" if "v = Dir sub" for sub
        using L [rule_format, of key sub] that by simp
      moreover have "uniqueKeys sub" if "map_of rest k = Some (Dir sub)" for k sub
        using L [rule_format, of k sub] that other [OF that] by simp
      ultimately show ?R by (cases v) auto
    next
      assume R: ?R
      show ?L
      proof (intro allI impI)
        fix k sub assume "map_of ((key, v) # rest) k = Some (Dir sub)"
        with R show "uniqueKeys sub" by (cases "k = key") auto
      qed
    qed
    with False "2.IH"(2) show ?thesis by auto
  qed
qed

lemma uniqueKeys_insertParts: "uniqueKeys M \<Longrightarrow> uniqueKeys (insertParts M ps ty)"
proof (induction ps arbitrary: M)
  case Nil
  then show ?case by simp
next
  case (Cons s rest)
  have d: "distinct (map fst (insertParts M (s # rest) ty))"
    using Cons.prems uniqueKeys_distinct [of M]
    by (auto simp: keys_insertParts simp del: insertParts.simps)
  have "uniqueKeys sub'" if "map_of (insertParts M (s # rest) ty) k = Some (Dir sub')" for k sub'
  proof (cases "k = s")
    case False
    with that Cons.prems show ?thesis
      by (auto simp: map_of_insertParts simp del: insertParts.simps dest: uniqueKeys_sub)
  next
    case True
    have "uniqueKeys []" by simp
    with True that Cons.prems Cons.IH show ?thesis
      by (auto simp: map_of_insertParts stepNode_def simp del: insertParts.simps
               split: if_splits option.splits node.splits dest: uniqueKeys_sub)
  qed
  with d show ?case
    by (subst uniqueKeys_iff) blast
qed

lemma uniqueKeys_generateStructureMap: "uniqueKeys (generateStructureMap tree)"
  by (induction tree rule: rev_induct)
     (simp_all add: generateStructureMap_def insertItem_def uniqueKeys_insertParts del: insertParts.simps)

section \<open>Rendering\<close>

lemma buildStructureString_append:
  "buildStructureString (xs @ ys) prefix =
     buildStructureString xs prefix @ buildStructureString ys prefix"
  by (induction xs prefix rule: buildStructureString.induct) simp_all

lemma buildStructureString_concat:
  "buildStructureString m prefix =
     concat (map (\<lambda>(key, v).
                    if key = ''type'' then []
                    else prefix @ branch @ key @ newline
                         @ (case v of Dir sub \<Rightarrow> buildStructureString sub (prefix @ indentUnit)
                                    | File \<Rightarrow> [])) m)"
  by (induction m prefix rule: buildStructureString.induct) simp_all

lemmas build_eval =
  generateStructureMap_def insertItem_def split_def Map_has_def Map_get_def Map_set_def

section \<open>The claims\<close>

text \<open>
  C1 (as stated): for the entries \<open>x\<close> (blob) and then \<open>x/y\<close> (blob), the key \<open>x\<close> of
  the root would map to a directory with the single child \<open>y\<close>, a leaf.  It does not:
  when the second item is walked, \<open>x\<close> is present and is not a map, so the guard
  \<^verbatim>\<open>if (!(currentLevel instanceof Map)) return\<close> ends the walk at \<open>y\<close>.
\<close>

theorem C1_later_entry_wins_counterexample:
  "Map_get (generateStructureMap
      [\<lparr>path = ''x'', type = ''blob''\<rparr>, \<lparr>path = ''x/y'', type = ''blob''\<rparr>]) ''x''
     \<noteq> Some (Dir [(''y'', File)])"
  by (simp add: build_eval)

text \<open>
  C1 (amended): for these entries the root has the single key \<open>x\<close>, and it is a leaf:
  the earlier entry stays, the later entry \<open>x/y\<close> adds nothing.
\<close>

theorem C1_leaf_stops_later_entry:
  "generateStructureMap
      [\<lparr>path = ''x'', type = ''blob''\<rparr>, \<lparr>path = ''x/y'', type = ''blob''\<rparr>]
     = [(''x'', File)]"
  by (simp add: build_eval)

text \<open>
  C2 (as stated): every proper prefix of the path of every entry would be a directory of
  the structure.  For the entries \<open>x/y\<close> (blob) and then \<open>x\<close> (blob) the prefix \<open>x\<close>
  of \<open>x/y\<close> is a leaf: the blob \<open>x\<close> replaces the directory.
\<close>

theorem C2_ancestor_is_leaf_counterexample:
  "split ''x/y'' CHR ''/'' = [''x''] @ ''y'' # [] \<and>
   nodeAt (generateStructureMap
      [\<lparr>path = ''x/y'', type = ''blob''\<rparr>, \<lparr>path = ''x'', type = ''blob''\<rparr>]) [''x'']
     = Some File"
  by (simp add: build_eval)

text \<open>
  C2 (amended): a proper prefix \<open>p\<close> of the path of an entry is a directory of the
  structure if and only if no blob entry of the sequence has \<open>p\<close> or a prefix of \<open>p\<close> as
  its path.  So every implied ancestor is a directory as long as no file is listed
  at or above it.
\<close>

theorem C2_ancestors_are_directories:
  assumes "item \<in> set tree"
    and "split (path item) CHR ''/'' = p @ s # rest"
  shows "(\<exists>m. nodeAt (generateStructureMap tree) p = Some (Dir m)) \<longleftrightarrow>
         (\<forall>b \<in> set tree. type b = ''blob'' \<longrightarrow> (\<forall>r. p \<noteq> split (path b) CHR ''/'' @ r))"
proof
  assume dir: "\<exists>m. nodeAt (generateStructureMap tree) p = Some (Dir m)"
  show "\<forall>b \<in> set tree. type b = ''blob'' \<longrightarrow> (\<forall>r. p \<noteq> split (path b) CHR ''/'' @ r)"
  proof (intro ballI impI allI notI)
    fix b r assume "b \<in> set tree" "type b = ''blob''" and p: "p = split (path b) CHR ''/'' @ r"
    then have "blocked (generateStructureMap tree) (split (path b) CHR ''/'')"
      by (simp only: blob_blocked_inv)
    then have "blocked (generateStructureMap tree) p" unfolding p by (rule blocked_append)
    with dir blocked_not_Dir show False by blast
  qed
next
  assume no: "\<forall>b \<in> set tree. type b = ''blob'' \<longrightarrow> (\<forall>r. p \<noteq> split (path b) CHR ''/'' @ r)"
  show "\<exists>m. nodeAt (generateStructureMap tree) p = Some (Dir m)"
  proof (rule ccontr)
    assume nd: "\<nexists>m. nodeAt (generateStructureMap tree) p = Some (Dir m)"
    from assms(2) have "nextSegment p (split (path item) CHR ''/'') = Some s"
      by (simp add: nextSegment_iff)
    from ancestors_inv [OF assms(1) this] nd have "blocked (generateStructureMap tree) p"
      by blast
    then obtain q r where q: "p = q @ r" "nodeAt (generateStructureMap tree) q = Some File"
      by (blast dest: blocked_File_prefix)
    from File_inv [OF q(2)] obtain b where
      "b \<in> set tree" "split (path b) CHR ''/'' = q" "type b = ''blob''" by blast
    with no q(1) show False by blast
  qed
qed

theorem C2_ancestors_are_directories_witness:
  "\<exists>m. nodeAt (generateStructureMap
      [\<lparr>path = ''a/b.txt'', type = ''blob''\<rparr>, \<lparr>path = ''a/c/d.txt'', type = ''blob''\<rparr>])
      [''a'', ''c''] = Some (Dir m)"
  using C2_ancestors_are_directories
    [of "\<lparr>path = ''a/c/d.txt'', type = ''blob''\<rparr>"
        "[\<lparr>path = ''a/b.txt'', type = ''blob''\<rparr>, \<lparr>path = ''a/c/d.txt'', type = ''blob''\<rparr>]"
        "[''a'', ''c'']" "''d.txt''" "[]"]
  by (simp add: split_def)


text \<open>
  C3 (as stated): \<open>filterStructure\<close> would keep a leaf whenever the name of one of its
  ancestor directories contains the term.  For the single entry \<open>src/main.ts\<close> and the
  term \<open>src\<close> the ancestor \<open>src\<close> contains the term and the leaf \<open>main.ts\<close> is
  removed all the same (the directory \<open>src\<close> is kept, empty).  The names are ASCII,
  where the built-in is \<open>asciiToLowerCase\<close>.
\<close>

theorem C3_ancestor_match_keeps_leaf_counterexample:
  "str_includes (asciiToLowerCase ''src'') (asciiToLowerCase ''src'') \<and>
   nodeAt (generateStructureMap [\<lparr>path = ''src/main.ts'', type = ''blob''\<rparr>])
     [''src'', ''main.ts''] = Some File \<and>
   nodeAt (filterStructure asciiToLowerCase
             (generateStructureMap [\<lparr>path = ''src/main.ts'', type = ''blob''\<rparr>]) ''src'')
     [''src'', ''main.ts''] = None"
proof -
  have "asciiToLowerCase ''src'' = ''src''" "asciiToLowerCase ''main.ts'' = ''main.ts''"
    by code_simp+
  then show ?thesis by (simp add: build_eval)
qed

text \<open>
  C3 (amended): for every sequence of entries and every term, and whatever function
  the built-in \<open>toLowerCase\<close> is: a leaf of the structure that is built is still there
  after \<open>filterStructure\<close> if and only if its own name, lowered, contains the lowered
  term; the names of its ancestors play no part.  A directory of the structure is
  still there if and only if its own name matches in the same way or what the filter
  keeps of its content is not empty, and it then holds this filtered content: a
  directory that is kept for its name alone loses its leaves that do not match.
\<close>

theorem C3_what_filter_keeps:
  "(nodeAt (filterStructure toLowerCase (generateStructureMap tree) searchTerm) ps = Some File
      \<longleftrightarrow>
    nodeAt (generateStructureMap tree) ps = Some File \<and>
    str_includes (toLowerCase (last ps)) (toLowerCase searchTerm))
   \<and>
   (ps \<noteq> [] \<longrightarrow>
     (nodeAt (filterStructure toLowerCase (generateStructureMap tree) searchTerm) ps
        = Some (Dir kept)
      \<longleftrightarrow>
      (\<exists>d. nodeAt (generateStructureMap tree) ps = Some (Dir d)
           \<and> kept = filterStructure toLowerCase d searchTerm
           \<and> (kept \<noteq> []
                \<or> str_includes (toLowerCase (last ps)) (toLowerCase searchTerm)))))"
  using leaf_filter [OF uniqueKeys_generateStructureMap, of toLowerCase tree searchTerm ps]
    dir_filter [OF uniqueKeys_generateStructureMap, of ps toLowerCase tree searchTerm kept]
  by (simp add: matches_def del: filterStructure.simps)

theorem C3_what_filter_keeps_witness:
  "nodeAt (filterStructure asciiToLowerCase (generateStructureMap
      [\<lparr>path = ''README.md'', type = ''blob''\<rparr>, \<lparr>path = ''src/main.ts'', type = ''blob''\<rparr>])
      ''SRC'') [''src''] = Some (Dir []) \<and>
   nodeAt (filterStructure asciiToLowerCase (generateStructureMap
      [\<lparr>path = ''README.md'', type = ''blob''\<rparr>, \<lparr>path = ''src/main.ts'', type = ''blob''\<rparr>])
      ''readme'') [''README.md''] = Some File"
proof -
  have low: "asciiToLowerCase ''README.md'' = ''readme.md''"
    "asciiToLowerCase ''readme'' = ''readme''" "asciiToLowerCase ''src'' = ''src''"
    "asciiToLowerCase ''SRC'' = ''src''" "asciiToLowerCase ''main.ts'' = ''main.ts''"
    by code_simp+
  from low C3_what_filter_keeps
    [of asciiToLowerCase
        "[\<lparr>path = ''README.md'', type = ''blob''\<rparr>, \<lparr>path = ''src/main.ts'', type = ''blob''\<rparr>]"
        "''SRC''" "[''src'']" "[]"]
  have "nodeAt (filterStructure asciiToLowerCase (generateStructureMap
      [\<lparr>path = ''README.md'', type = ''blob''\<rparr>, \<lparr>path = ''src/main.ts'', type = ''blob''\<rparr>])
      ''SRC'') [''src''] = Some (Dir [])"
    by (simp add: build_eval)
  moreover from low C3_what_filter_keeps
    [of asciiToLowerCase
        "[\<lparr>path = ''README.md'', type = ''blob''\<rparr>, \<lparr>path = ''src/main.ts'', type = ''blob''\<rparr>]"
        "''readme''" "[''README.md'']" "[]"]
  have "nodeAt (filterStructure asciiToLowerCase (generateStructureMap
      [\<lparr>path = ''README.md'', type = ''blob''\<rparr>, \<lparr>path = ''src/main.ts'', type = ''blob''\<rparr>])
      ''readme'') [''README.md''] = Some File"
    by (simp add: build_eval)
  ultimately show ?thesis by simp
qed

text \<open>
  C4 (as stated): on the final segment of an entry of kind tree, an existing value that
  is not a directory would be made a directory.  For the entries \<open>x\<close> (blob) and then
  \<open>x\<close> (tree) the key \<open>x\<close> stays a leaf: a map is stored only when the key is absent.
\<close>

theorem C4_tree_entry_on_leaf_counterexample:
  "nodeAt (generateStructureMap
      [\<lparr>path = ''x'', type = ''blob''\<rparr>, \<lparr>path = ''x'', type = ''tree''\<rparr>]) [''x'']
     = Some File"
  by (simp add: build_eval)

text \<open>
  C4 (amended): let an item be processed after the items \<open>tree\<close>, with the final
  segment \<open>part\<close> below the path \<open>qs\<close>.  If no leaf lies at or above \<open>qs\<close>, the walk
  reaches the final segment, creating the directories along \<open>qs\<close> that are missing,
  and then: if the kind of the item is blob, the key \<open>part\<close> is a leaf, whatever it
  was; otherwise a key that was absent is an empty directory, and a key that was
  present keeps its value, a directory or a leaf.  If a leaf lies at or above \<open>qs\<close>,
  the walk stops there and the item changes nothing.
\<close>

theorem C4_final_segment:
  assumes "split (path item) CHR ''/'' = qs @ [part]"
  shows "if blocked (generateStructureMap tree) qs
         then generateStructureMap (tree @ [item]) = generateStructureMap tree
         else nodeAt (generateStructureMap (tree @ [item])) (qs @ [part]) =
                Some (if type item = ''blob'' then File
                      else case nodeAt (generateStructureMap tree) (qs @ [part]) of
                             None \<Rightarrow> Dir [] | Some v \<Rightarrow> v)"
proof (cases "blocked (generateStructureMap tree) qs")
  case True
  from blocked_unchanged [OF True, of "[part]" "type item"] assms True show ?thesis
    by (simp only: generateStructureMap_snoc if_True)
next
  case False
  from final_segment_step [OF False, of part "type item"] assms False show ?thesis
    by (simp only: generateStructureMap_snoc if_False)
qed

theorem C4_final_segment_witness:
  "nodeAt (generateStructureMap
      [\<lparr>path = ''a/b.txt'', type = ''blob''\<rparr>, \<lparr>path = ''a/c/d.txt'', type = ''blob''\<rparr>])
      [''a'', ''c'', ''d.txt''] = Some File"
  using C4_final_segment
    [of "\<lparr>path = ''a/c/d.txt'', type = ''blob''\<rparr>" "[''a'', ''c'']" "''d.txt''"
        "[\<lparr>path = ''a/b.txt'', type = ''blob''\<rparr>]"]
  by (simp add: build_eval)

text \<open>
  C5: a child whose name is exactly \<open>type\<close> contributes nothing to the text that
  \<open>buildStructureString\<close> produces, neither a line for itself nor, when it is a
  directory, a line for anything below it: the text of the map is the text of the
  children before it followed by the text of the children after it.
\<close>

theorem C5_type_key_is_skipped:
  "buildStructureString (xs @ (''type'', v) # ys) prefix =
     buildStructureString xs prefix @ buildStructureString ys prefix"
  by (simp add: buildStructureString_append)

text \<open>
  C6: for the entries \<open>a/b.txt\<close> and \<open>a/c/d.txt\<close> (both blobs) the root has the single
  child \<open>a\<close>, a directory with the leaf \<open>b.txt\<close> and the directory \<open>c\<close>, which holds
  the leaf \<open>d.txt\<close>; the text is the four lines of the scenario, each ended by a
  newline.
\<close>

theorem C6_scenario_two_files:
  "generateStructureMap
      [\<lparr>path = ''a/b.txt'', type = ''blob''\<rparr>, \<lparr>path = ''a/c/d.txt'', type = ''blob''\<rparr>]
     = [(''a'', Dir [(''b.txt'', File), (''c'', Dir [(''d.txt'', File)])])] \<and>
   generateStructure
      [\<lparr>path = ''a/b.txt'', type = ''blob''\<rparr>, \<lparr>path = ''a/c/d.txt'', type = ''blob''\<rparr>]
     = branch @ ''a'' @ newline
       @ indentUnit @ branch @ ''b.txt'' @ newline
       @ indentUnit @ branch @ ''c'' @ newline
       @ indentUnit @ indentUnit @ branch @ ''d.txt'' @ newline"
  by (simp add: generateStructure_def build_eval)

text \<open>
  C7: in the structure that is built, the children of every directory (the root
  included, at the empty path) stand in first-insertion order: the names that the
  entries put below that directory, in the order of the input, each at its first
  occurrence; a later entry that writes to a key again does not move it.
  \<open>buildStructureString\<close> emits the children of a map in the order of the map, one
  block of lines per child, and sorts nothing.
\<close>

theorem C7_children_in_first_insertion_order:
  "(nodeAt (generateStructureMap tree) p = Some (Dir m) \<longrightarrow>
      map fst m = firstInsertionOrder p tree) \<and>
   buildStructureString d prefix =
     concat (map (\<lambda>(key, v).
                    if key = ''type'' then []
                    else prefix @ branch @ key @ newline
                         @ (case v of Dir sub \<Rightarrow> buildStructureString sub (prefix @ indentUnit)
                                    | File \<Rightarrow> [])) d)"
  using order_inv buildStructureString_concat by blast

theorem C7_children_in_first_insertion_order_witness:
  "nodeAt (generateStructureMap
      [\<lparr>path = ''b/z'', type = ''blob''\<rparr>, \<lparr>path = ''a'', type = ''blob''\<rparr>,
       \<lparr>path = ''b/y'', type = ''blob''\<rparr>, \<lparr>path = ''b/z'', type = ''blob''\<rparr>]) [''b'']
     = Some (Dir [(''z'', File), (''y'', File)]) \<and>
   firstInsertionOrder [''b'']
      [\<lparr>path = ''b/z'', type = ''blob''\<rparr>, \<lparr>path = ''a'', type = ''blob''\<rparr>,
       \<lparr>path = ''b/y'', type = ''blob''\<rparr>, \<lparr>path = ''b/z'', type = ''blob''\<rparr>] = [''z'', ''y'']"
  using C7_children_in_first_insertion_order
    [of "[\<lparr>path = ''b/z'', type = ''blob''\<rparr>, \<lparr>path = ''a'', type = ''blob''\<rparr>,
          \<lparr>path = ''b/y'', type = ''blob''\<rparr>, \<lparr>path = ''b/z'', type = ''blob''\<rparr>]"
        "[''b'']" "[(''z'', File), (''y'', File)]" "[]" "[]"]
  by (simp add: build_eval)



text \<open>
  C10: the text for the empty sequence of entries is the empty string, for every
  prefix: no header, no placeholder, no trailing character.
\<close>

theorem C10_render_of_empty_build:
  "buildStructureString (generateStructureMap []) prefix = [] \<and> generateStructure [] = []"
  by (simp add: generateStructure_def generateStructureMap_def)


section \<open>The heap: references point forward\<close>

lemma forward_emptyHeap: "forward (snd (newMap emptyHeap))"
  by (simp add: forward_def newMap_def emptyHeap_def)

lemma in_update_cases:
  "(k, v) \<in> set (AList.update key w al) \<Longrightarrow> (k, v) \<in> set al \<or> (k, v) = (key, w)"
  by (induction al) (auto split: if_splits)

lemma forward_setIn_File: "forward h \<Longrightarrow> forward (setIn a key FileObject h)"
  unfolding forward_def setIn_def
  by (auto dest!: in_update_cases split: if_splits)

lemma forward_alloc:
  "forward h \<Longrightarrow> a < fresh h \<Longrightarrow>
     forward (setIn a key (MapRef (fresh h)) (snd (newMap h)))"
  unfolding forward_def setIn_def newMap_def
  by (auto dest!: in_update_cases split: if_splits) (fastforce+)?

lemma fresh_setIn [simp]: "fresh (setIn a key v h) = fresh h"
  by (simp add: setIn_def)

lemma forward_insertPartsH:
  "forward h \<Longrightarrow> (\<forall>a. currentLevel = Some (MapRef a) \<longrightarrow> a < fresh h) \<Longrightarrow>
     forward (insertPartsH h currentLevel ps ty) \<and> fresh h \<le> fresh (insertPartsH h currentLevel ps ty)"
proof (induction ps arbitrary: h currentLevel)
  case Nil
  then show ?case by simp
next
  case (Cons part rest)
  show ?case
  proof (cases currentLevel)
    case None
    with Cons show ?thesis by simp
  next
    case (Some v)
    show ?thesis
    proof (cases v)
      case FileObject
      with Some Cons show ?thesis by simp
    next
      case (MapRef a)
      with Some Cons.prems have a: "a < fresh h" by simp
      let ?h1 = "if map_of (objects h a) part = None
                 then (case newMap h of (b, h') \<Rightarrow> setIn a part (MapRef b) h') else h"
      let ?h2 = "if rest = [] \<and> ty = ''blob'' then setIn a part FileObject ?h1 else ?h1"
      have h1: "forward ?h1" "fresh h \<le> fresh ?h1"
        using Cons.prems(1) a forward_alloc [of h a part]
        by (auto simp: newMap_def)
      then have h2: "forward ?h2" "fresh h \<le> fresh ?h2"
        by (auto simp: forward_setIn_File)
      have "\<forall>b. map_of (objects ?h2 a) part = Some (MapRef b) \<longrightarrow> b < fresh ?h2"
        using h2(1) unfolding forward_def by (blast dest: map_of_SomeD)
      from Cons.IH [OF h2(1) this] h2(2)
      have "forward (insertPartsH ?h2 (map_of (objects ?h2 a) part) rest ty) \<and>
            fresh h \<le> fresh (insertPartsH ?h2 (map_of (objects ?h2 a) part) rest ty)"
        by auto
      then show ?thesis
        unfolding Some MapRef
        by (simp only: insertPartsH.simps Let_def option.case jsval.case)
    qed
  qed
qed

lemma forward_generateStructureH:
  "forward (snd (generateStructureH tree)) \<and> fst (generateStructureH tree) < fresh (snd (generateStructureH tree))"
proof -
  let ?step = "\<lambda>h item. insertPartsH h (Some (MapRef 0)) (split (path item) CHR ''/'') (type item)"
  have "forward (foldl ?step h tree) \<and> 0 < fresh (foldl ?step h tree)"
    if "forward h" "0 < fresh h" for h
    using that
  proof (induction tree arbitrary: h)
    case Nil
    then show ?case by simp
  next
    case (Cons item tree)
    from forward_insertPartsH [OF Cons.prems(1), of "Some (MapRef 0)"
        "split (path item) CHR ''/''" "type item"] Cons.prems(2)
    have "forward (?step h item)" "0 < fresh (?step h item)" by auto
    from Cons.IH [OF this] show ?case by simp
  qed
  from this [OF forward_emptyHeap] show ?thesis
    by (simp add: generateStructureH_def newMap_def emptyHeap_def)
qed

section \<open>The heap holds the tree: the two readings of the code agree\<close>

lemma represents_keys: "represents h es ms \<Longrightarrow> map fst es = map fst ms"
  by (induction h es ms rule: represents.induct) auto

lemma represents_frame:
  "represents h es ms \<Longrightarrow> \<forall>x \<in> footprint h es ms. objects h' x = objects h x \<Longrightarrow>
     represents h' es ms \<and> footprint h' es ms = footprint h es ms"
proof (induction h es ms rule: represents.induct)
  case (3 h key b es key' sub ms)
  from "3.prems"(2) have b: "objects h' b = objects h b" by simp
  from "3.prems" have "represents h (objects h b) sub"
    "\<forall>x \<in> footprint h (objects h b) sub. objects h' x = objects h x" by auto
  from "3.IH"(1) [OF this]
  have sub: "represents h' (objects h b) sub"
    "footprint h' (objects h b) sub = footprint h (objects h b) sub" by auto
  from "3.prems" have "represents h es ms" "\<forall>x \<in> footprint h es ms. objects h' x = objects h x"
    by auto
  from "3.IH"(2) [OF this]
  have tl: "represents h' es ms" "footprint h' es ms = footprint h es ms" by auto
  from "3.prems"(1) sub tl show ?case by (simp add: b)
qed auto

lemma represents_lookup_Dir:
  "represents h es ms \<Longrightarrow> map_of ms k = Some (Dir sub) \<Longrightarrow>
     \<exists>b. map_of es k = Some (MapRef b) \<and> represents h (objects h b) sub
         \<and> b \<notin> footprint h (objects h b) sub
         \<and> insert b (footprint h (objects h b) sub) \<subseteq> footprint h es ms"
  by (induction h es ms rule: represents.induct) (auto split: if_splits)

lemma represents_lookup_File:
  "represents h es ms \<Longrightarrow> map_of ms k = Some File \<Longrightarrow> map_of es k = Some FileObject"
  by (induction h es ms rule: represents.induct) (auto split: if_splits)

lemma represents_lookup_None:
  "represents h es ms \<Longrightarrow> map_of ms k = None \<longleftrightarrow> map_of es k = None"
  by (simp add: map_of_eq_None_iff represents_keys [symmetric] flip: set_map)

lemma represents_snoc_Dir:
  "represents h es ms \<Longrightarrow> objects h b = [] \<Longrightarrow> b \<notin> footprint h es ms \<Longrightarrow>
     represents h (es @ [(k, MapRef b)]) (ms @ [(k, Dir [])]) \<and>
     footprint h (es @ [(k, MapRef b)]) (ms @ [(k, Dir [])]) = insert b (footprint h es ms)"
  by (induction h es ms rule: represents.induct) auto

lemma represents_update_File:
  "represents h es ms \<Longrightarrow>
     represents h (AList.update k FileObject es) (AList.update k File ms) \<and>
     footprint h (AList.update k FileObject es) (AList.update k File ms) \<subseteq> footprint h es ms"
  by (induction h es ms rule: represents.induct) auto


lemma represents_replace:
  "represents h es ms \<Longrightarrow> map_of ms k = Some (Dir sub) \<Longrightarrow> map_of es k = Some (MapRef b) \<Longrightarrow>
   represents h' (objects h' b) sub' \<Longrightarrow> b \<notin> footprint h' (objects h' b) sub' \<Longrightarrow>
   footprint h' (objects h' b) sub' \<inter> footprint h es ms \<subseteq> footprint h (objects h b) sub \<Longrightarrow>
   \<forall>x \<in> footprint h es ms - insert b (footprint h (objects h b) sub). objects h' x = objects h x \<Longrightarrow>
     represents h' es (AList.update k (Dir sub') ms) \<and>
     footprint h' es (AList.update k (Dir sub') ms)
       \<subseteq> (footprint h es ms - footprint h (objects h b) sub) \<union> footprint h' (objects h' b) sub'"
proof (induction h es ms rule: represents.induct)
  case (2 h key es key' ms)
  from "2.prems"(1) have key: "key' = key" and tl: "represents h es ms" by simp_all
  from "2.prems"(2) key have ne: "k \<noteq> key" by (auto split: if_splits)
  with "2.prems" key have "map_of ms k = Some (Dir sub)" "map_of es k = Some (MapRef b)"
    by simp_all
  from "2.IH" [OF tl this "2.prems"(4,5)] "2.prems"(6,7) key ne
  show ?case by simp
next
  case (3 h key c es key' sub0 ms)
  let ?Fb = "footprint h (objects h b) sub"
  let ?F' = "footprint h' (objects h' b) sub'"
  let ?T = "footprint h es ms"
  let ?H = "footprint h (objects h c) sub0"
  from "3.prems"(1) have key: "key' = key" and hd: "represents h (objects h c) sub0"
    and c1: "c \<notin> ?H" and c2: "c \<notin> ?T" and hdtl: "?H \<inter> ?T = {}"
    and tl: "represents h es ms" by simp_all
  have F: "footprint h ((key, MapRef c) # es) ((key', Dir sub0) # ms) = insert c (?H \<union> ?T)"
    by simp
  show ?case
  proof (cases "k = key")
    case True
    with "3.prems"(2,3) key have same: "c = b" "sub0 = sub" by simp_all
    have "\<forall>x \<in> ?T. objects h' x = objects h x"
    proof
      fix x assume x: "x \<in> ?T"
      with c2 hdtl same have "x \<in> insert c (?H \<union> ?T) - insert b ?Fb" by auto
      with "3.prems"(7) show "objects h' x = objects h x" unfolding F by blast
    qed
    from represents_frame [OF tl this]
    have tl': "represents h' es ms" "footprint h' es ms = ?T" by simp_all
    have "?F' \<inter> ?T = {}"
    proof -
      have "?F' \<inter> ?T \<subseteq> ?Fb" using "3.prems"(6) unfolding F by blast
      with hdtl same show ?thesis by blast
    qed
    with True key same tl' "3.prems"(4,5) c2 c1 hdtl show ?thesis by auto
  next
    case False
    with "3.prems"(2,3) key have look: "map_of ms k = Some (Dir sub)" "map_of es k = Some (MapRef b)"
      by simp_all
    from represents_lookup_Dir [OF tl look(1)] look(2)
    have inT: "insert b ?Fb \<subseteq> ?T" by simp
    have d6: "?F' \<inter> ?T \<subseteq> ?Fb" using "3.prems"(6) unfolding F by blast
    have d7: "\<forall>x \<in> ?T - insert b ?Fb. objects h' x = objects h x"
      using "3.prems"(7) unfolding F by blast
    from "3.IH"(2) [OF tl look "3.prems"(4,5) d6 d7]
    have tl': "represents h' es (AList.update k (Dir sub') ms)"
      and T': "footprint h' es (AList.update k (Dir sub') ms) \<subseteq> (?T - ?Fb) \<union> ?F'" by simp_all
    have "\<forall>x \<in> insert c ?H. objects h' x = objects h x"
    proof
      fix x assume "x \<in> insert c ?H"
      with c2 hdtl inT have "x \<in> insert c (?H \<union> ?T) - insert b ?Fb" by auto
      with "3.prems"(7) show "objects h' x = objects h x" unfolding F by blast
    qed
    then have c: "objects h' c = objects h c" and "\<forall>x \<in> ?H. objects h' x = objects h x"
      by simp_all
    from represents_frame [OF hd this(2)]
    have hd': "represents h' (objects h c) sub0" "footprint h' (objects h c) sub0 = ?H" by simp_all
    have cF': "c \<notin> ?F'"
    proof
      assume "c \<in> ?F'"
      with "3.prems"(6) have "c \<in> ?Fb" unfolding F by blast
      with inT c2 show False by blast
    qed
    have HF': "?H \<inter> ?F' = {}"
    proof -
      have "?H \<inter> ?F' \<subseteq> ?Fb" using "3.prems"(6) unfolding F by blast
      with inT hdtl show ?thesis by blast
    qed
    from c2 cF' T' have n1: "c \<notin> footprint h' es (AList.update k (Dir sub') ms)" by blast
    from hdtl HF' T' have n2: "?H \<inter> footprint h' es (AList.update k (Dir sub') ms) = {}" by blast
    from inT hdtl c2 have "c \<notin> ?Fb" "?H \<inter> ?Fb = {}" by blast+
    with False key hd' c c1 n1 n2 tl' T' show ?thesis by auto
  qed
qed simp_all


lemma evolves_refl: "owns h a M \<Longrightarrow> evolves h a M h M"
  by (simp add: evolves_def)

lemma evolves_owns: "evolves h a M h' M' \<Longrightarrow> owns h' a M'"
  by (simp add: evolves_def)

lemma evolves_trans:
  assumes "evolves h a M h1 M1" "evolves h1 a M1 h2 M2"
  shows "evolves h a M h2 M2"
proof -
  let ?F = "footprint h (objects h a) M"
  let ?F1 = "footprint h1 (objects h1 a) M1"
  let ?F2 = "footprint h2 (objects h2 a) M2"
  from assms(1) have 1: "?F1 \<subseteq> ?F \<union> {fresh h..}" "fresh h \<le> fresh h1"
    and f1: "\<And>x. x < fresh h \<Longrightarrow> x \<noteq> a \<Longrightarrow> x \<notin> ?F \<Longrightarrow> objects h1 x = objects h x"
    by (simp_all add: evolves_def)
  from assms(2) have 2: "owns h2 a M2" "?F2 \<subseteq> ?F1 \<union> {fresh h1..}" "fresh h1 \<le> fresh h2"
    and f2: "\<And>x. x < fresh h1 \<Longrightarrow> x \<noteq> a \<Longrightarrow> x \<notin> ?F1 \<Longrightarrow> objects h2 x = objects h1 x"
    by (simp_all add: evolves_def)
  have "?F2 \<subseteq> ?F \<union> {fresh h..}"
  proof
    fix x assume "x \<in> ?F2"
    with 2(2) have "x \<in> ?F1 \<or> fresh h1 \<le> x" by auto
    with 1 show "x \<in> ?F \<union> {fresh h..}" by auto
  qed
  moreover have "objects h2 x = objects h x" if x: "x < fresh h" "x \<noteq> a" "x \<notin> ?F" for x
  proof -
    from x 1(1) have "x \<notin> ?F1" by auto
    with x 1(2) have "objects h2 x = objects h1 x" by (intro f2) auto
    with f1 [OF x] show ?thesis by simp
  qed
  ultimately show ?thesis
    using 1(2) 2(1,3) unfolding evolves_def by (metis order_trans)
qed

lemma update_absent: "map_of es k = None \<Longrightarrow> AList.update k v es = es @ [(k, v)]"
  by (induction es) (auto split: if_splits)

lemma ensure_evolves:
  assumes "owns h a M"
  shows "evolves h a M
           (if map_of (objects h a) part = None
            then (case newMap h of (b, h') \<Rightarrow> setIn a part (MapRef b) h') else h)
           (if \<not> Map_has M part then Map_set part (Dir []) M else M)"
proof (cases "map_of M part = None")
  case False
  moreover from assms have "represents h (objects h a) M" by (simp add: owns_def)
  ultimately have "map_of (objects h a) part \<noteq> None"
    by (simp add: represents_lookup_None)
  with False assms show ?thesis by (auto simp: Map_has_def evolves_refl)
next
  case True
  let ?es = "objects h a"
  let ?F = "footprint h ?es M"
  let ?b = "fresh h"
  let ?h1 = "setIn a part (MapRef ?b) (snd (newMap h))"
  from assms have rep: "represents h ?es M" and a: "a \<notin> ?F" "a < fresh h"
    and F: "?F \<subseteq> {..<fresh h}" by (simp_all add: owns_def)
  from True rep have none: "map_of ?es part = None" by (simp add: represents_lookup_None)
  from a have ab: "a \<noteq> ?b" by simp
  have obj_a: "objects ?h1 a = ?es @ [(part, MapRef ?b)]"
    using ab none by (simp add: setIn_def newMap_def update_absent)
  have obj_b: "objects ?h1 ?b = []"
    using ab by (simp add: setIn_def newMap_def)
  have obj_x: "objects ?h1 x = objects h x" if "x \<noteq> a" "x \<noteq> ?b" for x
    using that by (simp add: setIn_def newMap_def)
  have fr: "fresh ?h1 = Suc (fresh h)" by (simp add: newMap_def)
  have "\<forall>x \<in> ?F. objects ?h1 x = objects h x"
  proof
    fix x assume "x \<in> ?F"
    with a F have "x \<noteq> a" "x \<noteq> ?b" by auto
    then show "objects ?h1 x = objects h x" by (rule obj_x)
  qed
  from represents_frame [OF rep this]
  have rep1: "represents ?h1 ?es M" and F1: "footprint ?h1 ?es M = ?F" by simp_all
  from F have "?b \<notin> ?F" by auto
  with F1 have "?b \<notin> footprint ?h1 ?es M" by simp
  from represents_snoc_Dir [OF rep1 obj_b this, of part] F1
  have rep2: "represents ?h1 (?es @ [(part, MapRef ?b)]) (M @ [(part, Dir [])])"
    and F2: "footprint ?h1 (?es @ [(part, MapRef ?b)]) (M @ [(part, Dir [])]) = insert ?b ?F"
    by simp_all
  have M1: "Map_set part (Dir []) M = M @ [(part, Dir [])]"
    using True by (simp add: Map_set_def update_absent)
  have "owns ?h1 a (M @ [(part, Dir [])])"
    unfolding owns_def obj_a F2 fr using rep2 a F ab by auto
  moreover have "footprint ?h1 (objects ?h1 a) (M @ [(part, Dir [])]) \<subseteq> ?F \<union> {fresh h..}"
    unfolding obj_a F2 by auto
  moreover have "\<forall>x<fresh h. x \<noteq> a \<longrightarrow> x \<notin> ?F \<longrightarrow> objects ?h1 x = objects h x"
    using obj_x by auto
  ultimately have "evolves h a M ?h1 (M @ [(part, Dir [])])"
    unfolding evolves_def fr by simp
  with True none M1 show ?thesis by (simp add: Map_has_def newMap_def)
qed


lemma blob_evolves:
  assumes "owns h a M"
  shows "evolves h a M (setIn a part FileObject h) (Map_set part File M)"
proof -
  let ?es = "objects h a"
  let ?F = "footprint h ?es M"
  let ?h2 = "setIn a part FileObject h"
  from assms have rep: "represents h ?es M" and a: "a \<notin> ?F" "a < fresh h"
    and F: "?F \<subseteq> {..<fresh h}" by (simp_all add: owns_def)
  have obj_a: "objects ?h2 a = AList.update part FileObject ?es" by (simp add: setIn_def)
  have obj_x: "objects ?h2 x = objects h x" if "x \<noteq> a" for x
    using that by (simp add: setIn_def)
  have "\<forall>x \<in> ?F. objects ?h2 x = objects h x"
  proof
    fix x assume "x \<in> ?F"
    with a have "x \<noteq> a" by auto
    then show "objects ?h2 x = objects h x" by (rule obj_x)
  qed
  from represents_frame [OF rep this]
  have rep1: "represents ?h2 ?es M" and F1: "footprint ?h2 ?es M = ?F" by simp_all
  from represents_update_File [OF rep1, of part] F1
  have rep2: "represents ?h2 (objects ?h2 a) (Map_set part File M)"
    and F2: "footprint ?h2 (objects ?h2 a) (Map_set part File M) \<subseteq> ?F"
    by (simp_all add: obj_a Map_set_def)
  from rep2 F2 a F have "owns ?h2 a (Map_set part File M)"
    unfolding owns_def by auto
  moreover from F2 have "footprint ?h2 (objects ?h2 a) (Map_set part File M) \<subseteq> ?F \<union> {fresh h..}"
    by auto
  moreover have "\<forall>x<fresh h. x \<noteq> a \<longrightarrow> x \<notin> ?F \<longrightarrow> objects ?h2 x = objects h x"
    using obj_x by auto
  ultimately show ?thesis unfolding evolves_def by simp
qed

lemma owns_child:
  assumes "owns h a M" "map_of M part = Some (Dir sub)"
  shows "\<exists>c. map_of (objects h a) part = Some (MapRef c) \<and> owns h c sub"
proof -
  from assms(1) have rep: "represents h (objects h a) M"
    and F: "footprint h (objects h a) M \<subseteq> {..<fresh h}" by (simp_all add: owns_def)
  from represents_lookup_Dir [OF rep assms(2)] obtain c where
    c: "map_of (objects h a) part = Some (MapRef c)" "represents h (objects h c) sub"
       "c \<notin> footprint h (objects h c) sub"
       "insert c (footprint h (objects h c) sub) \<subseteq> footprint h (objects h a) M" by blast
  from c(4) F have "c < fresh h" "footprint h (objects h c) sub \<subseteq> {..<fresh h}" by auto
  with c show ?thesis unfolding owns_def by blast
qed

lemma descend_evolves:
  assumes own: "owns h a M" and M: "map_of M part = Some (Dir sub)"
    and es: "map_of (objects h a) part = Some (MapRef c)"
    and child: "evolves h c sub h' sub'"
  shows "evolves h a M h' (Map_set part (Dir sub') M)"
proof -
  let ?es = "objects h a"
  let ?F = "footprint h ?es M"
  let ?Fc = "footprint h (objects h c) sub"
  let ?F' = "footprint h' (objects h' c) sub'"
  from own have rep: "represents h ?es M" and a: "a \<notin> ?F" "a < fresh h"
    and F: "?F \<subseteq> {..<fresh h}" by (simp_all add: owns_def)
  from represents_lookup_Dir [OF rep M] es
  have inF: "insert c ?Fc \<subseteq> ?F" by simp
  from child have own': "owns h' c sub'" and F': "?F' \<subseteq> ?Fc \<union> {fresh h..}"
    and fr: "fresh h \<le> fresh h'"
    and frame: "\<And>x. x < fresh h \<Longrightarrow> x \<noteq> c \<Longrightarrow> x \<notin> ?Fc \<Longrightarrow> objects h' x = objects h x"
    by (simp_all add: evolves_def)
  from own' have rep': "represents h' (objects h' c) sub'" and c': "c \<notin> ?F'"
    and F'b: "?F' \<subseteq> {..<fresh h'}" by (simp_all add: owns_def)
  from a inF have "a \<noteq> c" "a \<notin> ?Fc" by auto
  with a(2) have obj_a: "objects h' a = ?es" by (intro frame)
  have F'x: "x \<in> ?Fc \<or> fresh h \<le> x" if "x \<in> ?F'" for x
    using F' that by auto
  have Fx: "x < fresh h" if "x \<in> ?F" for x
    using F that by auto
  have d6: "?F' \<inter> ?F \<subseteq> ?Fc"
  proof
    fix x assume "x \<in> ?F' \<inter> ?F"
    with F'x [of x] Fx [of x] show "x \<in> ?Fc" by auto
  qed
  have d7: "\<forall>x \<in> ?F - insert c ?Fc. objects h' x = objects h x"
  proof
    fix x assume "x \<in> ?F - insert c ?Fc"
    with F have "x < fresh h" "x \<noteq> c" "x \<notin> ?Fc" by auto
    then show "objects h' x = objects h x" by (rule frame)
  qed
  from represents_replace [OF rep M es rep' c' d6 d7]
  have rep2: "represents h' ?es (Map_set part (Dir sub') M)"
    and F2: "footprint h' ?es (Map_set part (Dir sub') M) \<subseteq> (?F - ?Fc) \<union> ?F'"
    by (simp_all add: Map_set_def)
  have aF': "a \<notin> ?F'" using F'x [of a] a \<open>a \<notin> ?Fc\<close> by auto
  have F2x: "x \<in> ?F \<or> x \<in> ?F'" if "x \<in> footprint h' ?es (Map_set part (Dir sub') M)" for x
    using F2 that by auto
  have "a \<notin> footprint h' ?es (Map_set part (Dir sub') M)"
    using F2x [of a] a aF' by auto
  moreover have "footprint h' ?es (Map_set part (Dir sub') M) \<subseteq> {..<fresh h'}"
  proof
    fix x assume "x \<in> footprint h' ?es (Map_set part (Dir sub') M)"
    from F2x [OF this] Fx [of x] F'b fr show "x \<in> {..<fresh h'}" by auto
  qed
  ultimately have "owns h' a (Map_set part (Dir sub') M)"
    unfolding owns_def obj_a using rep2 a fr by auto
  moreover have "footprint h' (objects h' a) (Map_set part (Dir sub') M) \<subseteq> ?F \<union> {fresh h..}"
    unfolding obj_a
  proof
    fix x assume "x \<in> footprint h' ?es (Map_set part (Dir sub') M)"
    from F2x [OF this] F'x [of x] inF show "x \<in> ?F \<union> {fresh h..}" by auto
  qed
  moreover have "\<forall>x<fresh h. x \<noteq> a \<longrightarrow> x \<notin> ?F \<longrightarrow> objects h' x = objects h x"
    using frame inF by auto
  ultimately show ?thesis unfolding evolves_def using fr by simp
qed

lemma insertPartsH_undefined: "insertPartsH h None ps ty = h"
  by (induction ps) simp_all

lemma insertPartsH_FileObject: "insertPartsH h (Some FileObject) ps ty = h"
  by (induction ps) simp_all


lemma insertPartsH_refines:
  "owns h a M \<Longrightarrow>
     evolves h a M (insertPartsH h (Some (MapRef a)) ps ty) (insertParts M ps ty)"
proof (induction ps arbitrary: h a M)
  case Nil
  then show ?case by (simp add: evolves_refl)
next
  case (Cons part rest)
  let ?h1 = "if map_of (objects h a) part = None
             then (case newMap h of (b, h') \<Rightarrow> setIn a part (MapRef b) h') else h"
  let ?M1 = "if \<not> Map_has M part then Map_set part (Dir []) M else M"
  let ?h2 = "if rest = [] \<and> ty = ''blob'' then setIn a part FileObject ?h1 else ?h1"
  let ?M2 = "if rest = [] \<and> ty = ''blob'' then Map_set part File ?M1 else ?M1"
  have e1: "evolves h a M ?h1 ?M1" by (rule ensure_evolves [OF Cons.prems])
  then have own1: "owns ?h1 a ?M1" by (rule evolves_owns)
  have e2: "evolves ?h1 a ?M1 ?h2 ?M2"
  proof (cases "rest = [] \<and> ty = ''blob''")
    case True
    from blob_evolves [OF own1, of part] show ?thesis unfolding if_P [OF True] .
  next
    case False
    from evolves_refl [OF own1] show ?thesis unfolding if_not_P [OF False] .
  qed
  have e12: "evolves h a M ?h2 ?M2" by (rule evolves_trans [OF e1 e2])
  then have own2: "owns ?h2 a ?M2" by (rule evolves_owns)
  then have rep2: "represents ?h2 (objects ?h2 a) ?M2" by (simp add: owns_def)
  have H: "insertPartsH h (Some (MapRef a)) (part # rest) ty =
           insertPartsH ?h2 (map_of (objects ?h2 a) part) rest ty"
    by (simp only: insertPartsH.simps Let_def option.case jsval.case)
  have T: "insertParts M (part # rest) ty =
           (case map_of ?M2 part of
              Some (Dir sub) \<Rightarrow> Map_set part (Dir (insertParts sub rest ty)) ?M2
            | _ \<Rightarrow> ?M2)"
    by (simp only: insertParts.simps Let_def Map_get_def)
  show ?case
  proof (cases "map_of ?M2 part")
    case None
    with rep2 have "map_of (objects ?h2 a) part = None"
      by (simp only: represents_lookup_None)
    then have "insertPartsH ?h2 (map_of (objects ?h2 a) part) rest ty = ?h2"
      by (simp only: insertPartsH_undefined)
    with e12 None show ?thesis unfolding H T by (simp only: option.case)
  next
    case (Some n)
    show ?thesis
    proof (cases n)
      case File
      with Some represents_lookup_File [OF rep2]
      have "map_of (objects ?h2 a) part = Some FileObject" by blast
      then have "insertPartsH ?h2 (map_of (objects ?h2 a) part) rest ty = ?h2"
        by (simp only: insertPartsH_FileObject)
      with e12 Some File show ?thesis unfolding H T by (simp only: option.case node.case)
    next
      case (Dir sub)
      with Some have look: "map_of ?M2 part = Some (Dir sub)" by simp
      from owns_child [OF own2 look] obtain c where
        c: "map_of (objects ?h2 a) part = Some (MapRef c)" "owns ?h2 c sub" by blast
      from Cons.IH [OF c(2)]
      have "evolves ?h2 c sub (insertPartsH ?h2 (Some (MapRef c)) rest ty) (insertParts sub rest ty)" .
      from descend_evolves [OF own2 look c(1) this]
      have "evolves ?h2 a ?M2 (insertPartsH ?h2 (Some (MapRef c)) rest ty)
              (Map_set part (Dir (insertParts sub rest ty)) ?M2)" .
      from evolves_trans [OF e12 this] c(1) look show ?thesis
        unfolding H T by (simp only: option.case node.case)
    qed
  qed
qed

lemma generateStructureH_refines:
  "owns (snd (generateStructureH tree)) (fst (generateStructureH tree)) (generateStructureMap tree)"
proof -
  let ?stepH = "\<lambda>h item. insertPartsH h (Some (MapRef 0)) (split (path item) CHR ''/'') (type item)"
  have "owns (foldl ?stepH h tree) 0 (foldl insertItem M tree)" if "owns h 0 M" for h M
    using that
  proof (induction tree arbitrary: h M)
    case Nil
    then show ?case by simp
  next
    case (Cons item tree)
    from insertPartsH_refines [OF Cons.prems]
    have "owns (?stepH h item) 0 (insertItem M item)"
      unfolding insertItem_def by (rule evolves_owns)
    from Cons.IH [OF this] show ?case by simp
  qed
  moreover have "owns (snd (newMap emptyHeap)) 0 []"
    by (simp add: owns_def newMap_def emptyHeap_def)
  ultimately show ?thesis
    by (simp add: generateStructureH_def generateStructureMap_def newMap_def emptyHeap_def)
qed

subsection \<open>Growing the \<^verbatim>\<open>Map\<close> of a filter\<close>

lemma represents_length: "represents h es ms \<Longrightarrow> length es = length ms"
  using represents_keys [of h es ms] by (metis length_map)

lemma represents_update_Dir:
  "represents h es ms \<Longrightarrow> represents h (objects h c) sub \<Longrightarrow>
   c \<notin> footprint h (objects h c) sub \<Longrightarrow> c \<notin> footprint h es ms \<Longrightarrow>
   footprint h (objects h c) sub \<inter> footprint h es ms = {} \<Longrightarrow>
     represents h (AList.update k (MapRef c) es) (AList.update k (Dir sub) ms) \<and>
     footprint h (AList.update k (MapRef c) es) (AList.update k (Dir sub) ms)
       \<subseteq> insert c (footprint h (objects h c) sub \<union> footprint h es ms)"
proof (induction h es ms rule: represents.induct)
  case (1 h)
  then show ?case by simp
next
  case (2 h key es key' ms)
  then show ?case by auto
next
  case (3 h key b es key' sub0 ms)
  from "3.prems"(1) have key: "key' = key" and tl: "represents h es ms" by simp_all
  show ?case
  proof (cases "k = key")
    case True
    with "3.prems" key show ?thesis by auto
  next
    case False
    from "3.prems"(4,5) have "c \<notin> footprint h es ms"
      "footprint h (objects h c) sub \<inter> footprint h es ms = {}" by auto
    from "3.IH"(2) [OF tl "3.prems"(2,3) this]
    have tl': "represents h (AList.update k (MapRef c) es) (AList.update k (Dir sub) ms)"
      and T': "footprint h (AList.update k (MapRef c) es) (AList.update k (Dir sub) ms)
                 \<subseteq> insert c (footprint h (objects h c) sub \<union> footprint h es ms)"
      by simp_all
    from "3.prems"(1,4,5) T'
    have "b \<notin> footprint h (AList.update k (MapRef c) es) (AList.update k (Dir sub) ms)"
      "footprint h (objects h b) sub0
         \<inter> footprint h (AList.update k (MapRef c) es) (AList.update k (Dir sub) ms) = {}"
      by auto
    with False key "3.prems"(1) tl' T' show ?thesis by auto
  qed
qed simp_all

lemma owns_unchanged:
  assumes "owns h a M" "fresh h \<le> fresh h'"
    and same: "\<And>x. x < fresh h \<Longrightarrow> objects h' x = objects h x"
  shows "owns h' a M \<and> footprint h' (objects h' a) M = footprint h (objects h a) M"
proof -
  let ?F = "footprint h (objects h a) M"
  from assms(1) have rep: "represents h (objects h a) M" and a: "a \<notin> ?F" "a < fresh h"
    and F: "?F \<subseteq> {..<fresh h}" by (simp_all add: owns_def)
  from a have obj_a: "objects h' a = objects h a" by (intro same)
  have "\<forall>x \<in> ?F. objects h' x = objects h x"
  proof
    fix x assume "x \<in> ?F"
    with F show "objects h' x = objects h x" by (intro same) auto
  qed
  from represents_frame [OF rep this]
  have "represents h' (objects h a) M" "footprint h' (objects h a) M = ?F" by simp_all
  with a F assms(2) show ?thesis unfolding owns_def obj_a by auto
qed

lemma link_owns:
  assumes f: "owns h f acc" and c: "owns h c sub" and ne: "c \<noteq> f"
    and d1: "c \<notin> footprint h (objects h f) acc" and d2: "f \<notin> footprint h (objects h c) sub"
    and d3: "footprint h (objects h c) sub \<inter> footprint h (objects h f) acc = {}"
  shows "owns (setIn f key (MapRef c) h) f (Map_set key (Dir sub) acc) \<and>
         footprint (setIn f key (MapRef c) h) (objects (setIn f key (MapRef c) h) f)
             (Map_set key (Dir sub) acc)
           \<subseteq> insert c (footprint h (objects h c) sub \<union> footprint h (objects h f) acc)"
proof -
  let ?h = "setIn f key (MapRef c) h"
  let ?Fa = "footprint h (objects h f) acc"
  let ?Fc = "footprint h (objects h c) sub"
  from f have repf: "represents h (objects h f) acc" and f1: "f \<notin> ?Fa" "f < fresh h"
    and Fa: "?Fa \<subseteq> {..<fresh h}" by (simp_all add: owns_def)
  from c have repc: "represents h (objects h c) sub" and c1: "c \<notin> ?Fc" "c < fresh h"
    and Fc: "?Fc \<subseteq> {..<fresh h}" by (simp_all add: owns_def)
  have obj_f: "objects ?h f = AList.update key (MapRef c) (objects h f)" by (simp add: setIn_def)
  have obj_x: "objects ?h x = objects h x" if "x \<noteq> f" for x
    using that by (simp add: setIn_def)
  have "\<forall>x \<in> ?Fa. objects ?h x = objects h x" using f1 by (auto simp: setIn_def)
  from represents_frame [OF repf this]
  have repf': "represents ?h (objects h f) acc" and Fa': "footprint ?h (objects h f) acc = ?Fa"
    by simp_all
  have "\<forall>x \<in> ?Fc. objects ?h x = objects h x" using d2 by (auto simp: setIn_def)
  from represents_frame [OF repc this] obj_x [OF ne]
  have repc': "represents ?h (objects ?h c) sub" and Fc': "footprint ?h (objects ?h c) sub = ?Fc"
    by simp_all
  from represents_update_Dir [OF repf' repc', of key] c1 d1 d3
  have rep: "represents ?h (objects ?h f) (Map_set key (Dir sub) acc)"
    and F: "footprint ?h (objects ?h f) (Map_set key (Dir sub) acc) \<subseteq> insert c (?Fc \<union> ?Fa)"
    unfolding Fa' Fc' obj_f Map_set_def by simp_all
  from F f1 d2 ne have "f \<notin> footprint ?h (objects ?h f) (Map_set key (Dir sub) acc)" by auto
  moreover from F Fa Fc c1
  have "footprint ?h (objects ?h f) (Map_set key (Dir sub) acc) \<subseteq> {..<fresh ?h}" by auto
  ultimately show ?thesis using rep F f1 unfolding owns_def by simp
qed

lemma grows_refl: "owns h f acc \<Longrightarrow> grows h f acc h acc"
  by (simp add: grows_def)

lemma grows_trans:
  assumes "grows h f acc h1 acc1" "grows h1 f acc1 h2 acc2"
  shows "grows h f acc h2 acc2"
proof -
  let ?F = "footprint h (objects h f) acc"
  let ?F1 = "footprint h1 (objects h1 f) acc1"
  let ?F2 = "footprint h2 (objects h2 f) acc2"
  from assms(1) have 1: "?F1 \<subseteq> ?F \<union> {fresh h..}" "fresh h \<le> fresh h1"
    and f1: "\<And>x. x < fresh h \<Longrightarrow> x \<noteq> f \<Longrightarrow> objects h1 x = objects h x"
    by (simp_all add: grows_def)
  from assms(2) have 2: "owns h2 f acc2" "?F2 \<subseteq> ?F1 \<union> {fresh h1..}" "fresh h1 \<le> fresh h2"
    and f2: "\<And>x. x < fresh h1 \<Longrightarrow> x \<noteq> f \<Longrightarrow> objects h2 x = objects h1 x"
    by (simp_all add: grows_def)
  have "?F2 \<subseteq> ?F \<union> {fresh h..}"
  proof
    fix x assume "x \<in> ?F2"
    with 2(2) have "x \<in> ?F1 \<or> fresh h1 \<le> x" by auto
    with 1 show "x \<in> ?F \<union> {fresh h..}" by auto
  qed
  moreover have "objects h2 x = objects h x" if x: "x < fresh h" "x \<noteq> f" for x
  proof -
    from x 1(2) have "objects h2 x = objects h1 x" by (intro f2) auto
    with f1 [OF x] show ?thesis by simp
  qed
  ultimately show ?thesis
    using 1(2) 2(1,3) unfolding grows_def by (metis order_trans)
qed

lemma set_File_grows:
  assumes "owns h f acc"
  shows "grows h f acc (setIn f key FileObject h) (Map_set key File acc)"
  using blob_evolves [OF assms, of key]
  unfolding grows_def evolves_def by (auto simp: setIn_def)


lemma source_kept:
  assumes "represents h es ms" "footprint h es ms \<subseteq> {..<N}"
    and "\<And>x. x < N \<Longrightarrow> objects h' x = objects h x"
  shows "represents h' es ms \<and> footprint h' es ms \<subseteq> {..<N}"
proof -
  have "\<forall>x \<in> footprint h es ms. objects h' x = objects h x"
    using assms(2,3) by auto
  from represents_frame [OF assms(1) this] assms(2) show ?thesis by simp
qed


section \<open>The call stack: when rendering and filtering return\<close>

text \<open>
  On a heap that holds the tree \<open>ms\<close>, the loop of \<^verbatim>\<open>buildStructureString\<close> returns
  the text of \<open>buildStructureString ms\<close> if the stack has room for \<open>renderNesting ms\<close>
  more calls, and raises otherwise; the same for the loop of \<^verbatim>\<open>filterStructure\<close>,
  which leaves the source untouched and builds \<open>filterLoop ms\<close> in new \<^verbatim>\<open>Map\<close>s.
\<close>

lemma renderH_outcome:
  "represents h es ms \<Longrightarrow>
     renderH stack h es prefix =
       (if renderNesting ms \<le> stack then Inr (buildStructureString ms prefix)
        else Inl RangeError)"
proof (induction stack h es prefix arbitrary: ms rule: renderH.induct)
  case (1 stack h prefix)
  then have "ms = []" by (cases ms) simp_all
  then show ?case by simp
next
  case (2 stack h key v rest prefix)
  from "2.prems" obtain n ms' where ms: "ms = (key, n) # ms'"
    by (cases ms; cases v) (auto elim: represents.elims)
  show ?case
  proof (cases "key = ''type''")
    case True
    from "2.prems" ms have "represents h rest ms'" by (cases v; cases n) simp_all
    from "2.IH"(1) [OF True this] True ms show ?thesis by (cases n) simp_all
  next
    case False
    show ?thesis
    proof (cases v)
      case FileObject
      with "2.prems" ms have n: "n = File" and tl: "represents h rest ms'"
        by (cases n; simp)+
      from "2.IH"(2) [OF False FileObject tl] False FileObject ms n show ?thesis by simp
    next
      case (MapRef b)
      with "2.prems" ms obtain sub where n: "n = Dir sub"
        and hd: "represents h (objects h b) sub" and tl: "represents h rest ms'"
        by (cases n) simp_all
      show ?thesis
      proof (cases stack)
        case 0
        with False MapRef ms n show ?thesis by simp
      next
        case (Suc s)
        note sub = "2.IH"(3) [OF False MapRef Suc hd]
        show ?thesis
        proof (cases "renderNesting sub \<le> s")
          case deep: False
          with sub False MapRef Suc ms n show ?thesis by simp
        next
          case True
          with sub have r: "renderH s h (objects h b) (prefix @ indentUnit) =
              Inr (buildStructureString sub (prefix @ indentUnit))" by simp
          from "2.IH"(4) [OF False MapRef Suc r tl] r True False MapRef Suc ms n
          show ?thesis by simp
        qed
      qed
    qed
  qed
qed

lemma filterH_outcome:
  "represents h es ms \<Longrightarrow> footprint h es ms \<subseteq> {..<N} \<Longrightarrow> N \<le> f \<Longrightarrow> owns h f acc \<Longrightarrow>
     (if filterNesting ms \<le> stack
      then \<exists>h'. filterH lc stack h es term f = Inr h'
                \<and> grows h f acc h' (filterLoop lc ms term acc)
      else filterH lc stack h es term f = Inl RangeError)"
proof (induction lc stack h es "term" f arbitrary: ms acc rule: filterH.induct)
  case (1 lc stack h "term" f)
  from "1.prems"(1) have "ms = []" by (cases ms) simp_all
  with "1.prems" show ?case by (simp add: grows_refl)
next
  case (2 lc stack h key rest "term" f)
  let ?c = "str_includes (lc key) (lc term)"
  let ?h1 = "if ?c then setIn f key FileObject h else h"
  let ?acc1 = "if ?c then Map_set key File acc else acc"
  from "2.prems"(1) obtain ms' where ms: "ms = (key, File) # ms'"
    and tl: "represents h rest ms'"
    by (auto elim: represents.elims)
  from "2.prems"(2) ms have tlF: "footprint h rest ms' \<subseteq> {..<N}" by simp
  have g1: "grows h f acc ?h1 ?acc1"
    using set_File_grows [OF "2.prems"(4), of key] grows_refl [OF "2.prems"(4)] by simp
  then have own1: "owns ?h1 f ?acc1" by (simp add: grows_def)
  have "objects ?h1 x = objects h x" if "x < N" for x
    using that "2.prems"(3) by (simp add: setIn_def)
  from source_kept [OF tl tlF this]
  have src: "represents ?h1 rest ms'" "footprint ?h1 rest ms' \<subseteq> {..<N}" by simp_all
  note IH = "2.IH" [OF src "2.prems"(3) own1]
  have run: "filterH lc stack h ((key, FileObject) # rest) term f =
             filterH lc stack ?h1 rest term f"
    by (simp only: filterH.simps)
  have loop: "filterLoop lc ms term acc = filterLoop lc ms' term ?acc1"
    unfolding ms by (simp only: filterLoop.simps)
  have nest: "filterNesting ms = filterNesting ms'" unfolding ms by simp
  show ?case
  proof (cases "filterNesting ms' \<le> stack")
    case True
    with IH obtain h' where "filterH lc stack ?h1 rest term f = Inr h'"
      "grows ?h1 f ?acc1 h' (filterLoop lc ms' term ?acc1)" by auto
    with grows_trans [OF g1] True show ?thesis unfolding run loop nest by auto
  next
    case False
    with IH show ?thesis unfolding run nest by simp
  qed
next
  case (3 lc stack h key b rest "term" f)
  let ?c = "str_includes (lc key) (lc term)"
  from "3.prems"(1) obtain sub ms' where ms: "ms = (key, Dir sub) # ms'"
    and hd: "represents h (objects h b) sub" and tl: "represents h rest ms'"
    by (auto elim: represents.elims)
  have nest: "filterNesting ms = max (Suc (filterNesting sub)) (filterNesting ms')"
    unfolding ms by simp
  show ?case
  proof (cases stack)
    case 0
    with nest show ?thesis by simp
  next
    case d: (Suc d)
    from "3.prems"(2) ms have bN: "b < N" and subF: "footprint h (objects h b) sub \<subseteq> {..<N}"
      and tlF: "footprint h rest ms' \<subseteq> {..<N}" by auto
    from "3.prems"(4) have f: "f < fresh h"
      and accF: "footprint h (objects h f) acc \<subseteq> {..<fresh h}"
      by (simp_all add: owns_def)
    obtain fs h1 where nm: "(fs, h1) = newMap h" by (cases "newMap h") simp
    then have fs: "fs = fresh h" and fr1: "fresh h1 = Suc (fresh h)"
      and obj1: "\<And>x. x \<noteq> fresh h \<Longrightarrow> objects h1 x = objects h x" and new1: "objects h1 fs = []"
      by (simp_all add: newMap_def)
    let ?H3 = "\<lambda>h2. if 0 < length (objects h2 fs) \<or> ?c then setIn f key (MapRef fs) h2 else h2"
    have unfold: "filterH lc stack h ((key, MapRef b) # rest) term f =
        (case filterH lc d h1 (objects h1 b) term fs of
           Inl e \<Rightarrow> Inl e | Inr h2 \<Rightarrow> filterH lc stack (?H3 h2) rest term f)"
      by (simp add: d nm [symmetric] cong: sum.case_cong)
    \<comment> \<open>the recursive call\<close>
    have below1: "objects h1 x = objects h x" if "x < N" for x
      using that "3.prems"(3) f by (intro obj1) simp
    from source_kept [OF hd subF below1] below1 [OF bN]
    have src1: "represents h1 (objects h1 b) sub" "footprint h1 (objects h1 b) sub \<subseteq> {..<N}"
      by simp_all
    have own_fs: "owns h1 fs []" using new1 unfolding fs by (simp add: owns_def fr1)
    from "3.prems"(3) f fs have Nfs: "N \<le> fs" by simp
    note IH1 = "3.IH"(1) [OF d nm src1 Nfs own_fs]
    show ?thesis
    proof (cases "filterNesting sub \<le> d")
      case False
      with IH1 have "filterH lc d h1 (objects h1 b) term fs = Inl RangeError" by simp
      with False nest d show ?thesis unfolding unfold by simp
    next
      case True
      let ?fsub = "filterLoop lc sub term []"
      from True IH1 obtain h2 where h2: "filterH lc d h1 (objects h1 b) term fs = Inr h2"
        and g_sub: "grows h1 fs [] h2 ?fsub" by auto
      from g_sub have own2_fs: "owns h2 fs ?fsub"
        and F_sub: "footprint h2 (objects h2 fs) ?fsub \<subseteq> {fresh h1..}"
        and fr2: "fresh h1 \<le> fresh h2"
        and same2: "\<And>x. x < fresh h1 \<Longrightarrow> x \<noteq> fs \<Longrightarrow> objects h2 x = objects h1 x"
        using new1 by (simp_all add: grows_def)
      have old2: "objects h2 x = objects h x" if "x < fresh h" for x
      proof -
        from that fs fr1 have "objects h2 x = objects h1 x" by (intro same2) simp_all
        with that obj1 [of x] show ?thesis by simp
      qed
      from fr1 fr2 have fr02: "fresh h \<le> fresh h2" by simp
      from owns_unchanged [OF "3.prems"(4) fr02 old2]
      have own2_f: "owns h2 f acc"
        and F2_f: "footprint h2 (objects h2 f) acc = footprint h (objects h f) acc" by simp_all
      from own2_fs have "represents h2 (objects h2 fs) ?fsub" by (simp add: owns_def)
      then have len: "length (objects h2 fs) = length ?fsub" by (rule represents_length)
      let ?acc3 = "if 0 < length ?fsub \<or> ?c then Map_set key (Dir ?fsub) acc else acc"
      have g3: "grows h f acc (?H3 h2) ?acc3"
      proof (cases "0 < length ?fsub \<or> ?c")
        case False
        with len have eq: "?H3 h2 = h2" "?acc3 = acc" by simp_all
        from own2_f F2_f fr02 old2 show ?thesis unfolding eq grows_def by simp
      next
        case True
        with len have eq: "?H3 h2 = setIn f key (MapRef fs) h2"
          "?acc3 = Map_set key (Dir ?fsub) acc" by simp_all
        have ne: "fs \<noteq> f" using f fs by simp
        have sub_x: "fresh h < x" if "x \<in> footprint h2 (objects h2 fs) ?fsub" for x
          using F_sub that fr1 by auto
        have acc_x: "x < fresh h" if "x \<in> footprint h (objects h f) acc" for x
          using accF that by auto
        have d1: "fs \<notin> footprint h2 (objects h2 f) acc"
          using acc_x [of fs] fs unfolding F2_f by auto
        have d2: "f \<notin> footprint h2 (objects h2 fs) ?fsub" using sub_x [of f] f by auto
        have d3: "footprint h2 (objects h2 fs) ?fsub \<inter> footprint h2 (objects h2 f) acc = {}"
          unfolding F2_f
        proof (rule equals0I)
          fix x assume "x \<in> footprint h2 (objects h2 fs) ?fsub \<inter> footprint h (objects h f) acc"
          with sub_x [of x] acc_x [of x] show False by auto
        qed
        from link_owns [OF own2_f own2_fs ne d1 d2 d3, of key]
        have own3: "owns (setIn f key (MapRef fs) h2) f (Map_set key (Dir ?fsub) acc)"
          and F3: "footprint (setIn f key (MapRef fs) h2) (objects (setIn f key (MapRef fs) h2) f)
                     (Map_set key (Dir ?fsub) acc)
                   \<subseteq> insert fs (footprint h2 (objects h2 fs) ?fsub
                                 \<union> footprint h2 (objects h2 f) acc)"
          by simp_all
        have "footprint (setIn f key (MapRef fs) h2) (objects (setIn f key (MapRef fs) h2) f)
                (Map_set key (Dir ?fsub) acc) \<subseteq> footprint h (objects h f) acc \<union> {fresh h..}"
        proof
          fix x assume "x \<in> footprint (setIn f key (MapRef fs) h2)
            (objects (setIn f key (MapRef fs) h2) f) (Map_set key (Dir ?fsub) acc)"
          with F3 have "x = fs \<or> x \<in> footprint h2 (objects h2 fs) ?fsub
                         \<or> x \<in> footprint h (objects h f) acc" unfolding F2_f by auto
          with sub_x [of x] fs show "x \<in> footprint h (objects h f) acc \<union> {fresh h..}" by auto
        qed
        moreover have "\<forall>x<fresh h. x \<noteq> f \<longrightarrow> objects (setIn f key (MapRef fs) h2) x = objects h x"
          using old2 by (simp add: setIn_def)
        ultimately show ?thesis unfolding eq grows_def using own3 fr02 by simp
      qed
      then have own3: "owns (?H3 h2) f ?acc3" by (simp only: grows_def)
      have below3: "objects (?H3 h2) x = objects h x" if "x < N" for x
      proof -
        from that "3.prems"(3) f have "x < fresh h" "x \<noteq> f" by simp_all
        with g3 show ?thesis unfolding grows_def by blast
      qed
      from source_kept [OF tl tlF below3]
      have src3: "represents (?H3 h2) rest ms'" "footprint (?H3 h2) rest ms' \<subseteq> {..<N}"
        by simp_all
      note IH2 = "3.IH"(2) [OF d nm h2 src3 "3.prems"(3) own3]
      have run: "filterH lc stack h ((key, MapRef b) # rest) term f =
                 filterH lc stack (?H3 h2) rest term f"
        unfolding unfold h2 by simp
      have loop: "filterLoop lc ms term acc = filterLoop lc ms' term ?acc3"
        unfolding ms by (simp only: filterLoop.simps filterStructure.simps Let_def)
      show ?thesis
      proof (cases "filterNesting ms' \<le> stack")
        case rest_ok: True
        with IH2 obtain h' where "filterH lc stack (?H3 h2) rest term f = Inr h'"
          "grows (?H3 h2) f ?acc3 h' (filterLoop lc ms' term ?acc3)" by auto
        with grows_trans [OF g3] rest_ok True nest d show ?thesis
          unfolding run loop by auto
      next
        case False
        with IH2 nest show ?thesis unfolding run by simp
      qed
    qed
  qed
qed

subsection \<open>A deep path\<close>

lemma split_from_deepPath:
  "split_from CHR ''/'' cur (deepPath n) = (cur @ ''d'') # replicate n ''d''"
  by (induction n arbitrary: cur) simp_all

lemma insertParts_deep:
  "insertParts [] (replicate (Suc n) ''d'') ''blob'' = nestedDirs n"
  by (induction n) (simp_all add: Map_has_def Map_get_def Map_set_def)

lemma generateStructureMap_deepPath:
  "generateStructureMap [\<lparr>path = deepPath n, type = ''blob''\<rparr>] = nestedDirs n"
  using insertParts_deep [of n]
  by (simp add: generateStructureMap_def insertItem_def split_def split_from_deepPath)

lemma renderNesting_nestedDirs: "renderNesting (nestedDirs n) = n"
  by (induction n) simp_all

lemma filterNesting_nestedDirs: "filterNesting (nestedDirs n) = n"
  by (induction n) simp_all

subsection \<open>The three operations on the structure that is built\<close>

lemma outcomes_on_built:
  assumes g: "generateStructureH tree = (root, h)"
  shows "forward h \<and> root < fresh h
     \<and> represents h (objects h root) (generateStructureMap tree)
     \<and> buildStructureStringH stack h root prefix =
         (if renderNesting (generateStructureMap tree) < stack
          then Inr (buildStructureString (generateStructureMap tree) prefix)
          else Inl RangeError)
     \<and> (if filterNesting (generateStructureMap tree) < stack
        then \<exists>filteredMap h'.
               filterStructureH lc stack h root searchTerm = Inr (filteredMap, h')
               \<and> represents h' (objects h' filteredMap)
                    (filterStructure lc (generateStructureMap tree) searchTerm)
        else filterStructureH lc stack h root searchTerm = Inl RangeError)"
proof -
  let ?M = "generateStructureMap tree"
  from g forward_generateStructureH [of tree] have fw: "forward h" and root: "root < fresh h"
    by simp_all
  from generateStructureH_refines [of tree] g have own: "owns h root ?M" by simp
  then have rep: "represents h (objects h root) ?M"
    and F: "footprint h (objects h root) ?M \<subseteq> {..<fresh h}" by (simp_all add: owns_def)
  \<comment> \<open>rendering\<close>
  have r: "buildStructureStringH stack h root prefix =
       (if renderNesting ?M < stack then Inr (buildStructureString ?M prefix)
        else Inl RangeError)"
  proof (cases stack)
    case 0
    then show ?thesis by (simp add: buildStructureStringH_def)
  next
    case (Suc s)
    with renderH_outcome [OF rep, of s prefix] show ?thesis
      by (simp add: buildStructureStringH_def less_Suc_eq_le)
  qed
  \<comment> \<open>filtering\<close>
  have fl: "if filterNesting ?M < stack
        then \<exists>filteredMap h'.
               filterStructureH lc stack h root searchTerm = Inr (filteredMap, h')
               \<and> represents h' (objects h' filteredMap) (filterStructure lc ?M searchTerm)
        else filterStructureH lc stack h root searchTerm = Inl RangeError"
  proof (cases stack)
    case 0
    then show ?thesis by (simp add: filterStructureH_def)
  next
    case (Suc s)
    obtain f h1 where nm: "newMap h = (f, h1)" by (cases "newMap h")
    then have f: "f = fresh h" and fr1: "fresh h1 = Suc (fresh h)"
      and new1: "objects h1 f = []" and obj1: "\<And>x. x < fresh h \<Longrightarrow> objects h1 x = objects h x"
      by (auto simp: newMap_def)
    from obj1 [OF root] have eq: "objects h1 root = objects h root" .
    have p2: "fresh h \<le> f" by (simp add: f)
    from source_kept [OF rep F obj1] eq
    have src: "represents h1 (objects h1 root) ?M"
      "footprint h1 (objects h1 root) ?M \<subseteq> {..<fresh h}"
      by simp_all
    have own_f: "owns h1 f []" using new1 unfolding f by (simp add: owns_def fr1)
    note out = filterH_outcome [OF src p2 own_f, of s lc searchTerm]
    have unfold: "filterStructureH lc stack h root searchTerm =
        (case filterH lc s h1 (objects h1 root) searchTerm f of
           Inl e \<Rightarrow> Inl e | Inr h' \<Rightarrow> Inr (f, h'))"
      by (simp add: filterStructureH_def Suc nm)
    show ?thesis
    proof (cases "filterNesting ?M \<le> s")
      case True
      with out obtain h' where run: "filterH lc s h1 (objects h1 root) searchTerm f = Inr h'"
        and gr: "grows h1 f [] h' (filterLoop lc ?M searchTerm [])" by auto
      from gr have "owns h' f (filterLoop lc ?M searchTerm [])" by (simp add: grows_def)
      then have "represents h' (objects h' f) (filterStructure lc ?M searchTerm)"
        by (simp add: owns_def)
      with run True Suc show ?thesis unfolding unfold by simp
    next
      case False
      with out Suc show ?thesis unfolding unfold by simp
    qed
  qed
  from fw root rep r fl show ?thesis by simp
qed

lemma deep_path_exhausts_stack:
  assumes "stack \<le> n"
  shows "represents (snd (generateStructureH [\<lparr>path = deepPath n, type = ''blob''\<rparr>]))
           (objects (snd (generateStructureH [\<lparr>path = deepPath n, type = ''blob''\<rparr>]))
              (fst (generateStructureH [\<lparr>path = deepPath n, type = ''blob''\<rparr>])))
           (nestedDirs n)
       \<and> buildStructureStringH stack
           (snd (generateStructureH [\<lparr>path = deepPath n, type = ''blob''\<rparr>]))
           (fst (generateStructureH [\<lparr>path = deepPath n, type = ''blob''\<rparr>])) prefix
         = Inl RangeError
       \<and> filterStructureH lc stack
           (snd (generateStructureH [\<lparr>path = deepPath n, type = ''blob''\<rparr>]))
           (fst (generateStructureH [\<lparr>path = deepPath n, type = ''blob''\<rparr>])) searchTerm
         = Inl RangeError"
proof -
  let ?tree = "[\<lparr>path = deepPath n, type = ''blob''\<rparr>]"
  obtain root h where g: "generateStructureH ?tree = (root, h)"
    by (cases "generateStructureH ?tree")
  from outcomes_on_built [OF g, of stack prefix lc searchTerm] assms show ?thesis
    unfolding g
    by (simp add: generateStructureMap_deepPath renderNesting_nestedDirs
          filterNesting_nestedDirs)
qed

text \<open>
  C8 (as stated): no input would make \<open>build\<close>, \<open>render\<close> or \<open>filter\<close> raise an
  error.  The single entry whose path is \<^verbatim>\<open>d/d/.../d\<close> with 20000 segments is a
  well-typed input.  The build is a loop over the segments and accepts it: the structure
  is a leaf below 19999 directories, one in the other.  \<^verbatim>\<open>buildStructureString\<close> and
  \<^verbatim>\<open>filterStructure\<close> call themselves once for each of these directories before any
  of the calls returns, and on a stack with room for 10000 calls both raise
  \<^verbatim>\<open>RangeError\<close>.  By \<open>deep_path_exhausts_stack\<close> the same holds for a stack of
  any size and the path with that many directories.
\<close>

theorem C8_deep_path_raises_counterexample:
  "represents (snd (generateStructureH [\<lparr>path = deepPath 19999, type = ''blob''\<rparr>]))
     (objects (snd (generateStructureH [\<lparr>path = deepPath 19999, type = ''blob''\<rparr>]))
        (fst (generateStructureH [\<lparr>path = deepPath 19999, type = ''blob''\<rparr>])))
     (nestedDirs 19999)
   \<and> buildStructureStringH 10000
       (snd (generateStructureH [\<lparr>path = deepPath 19999, type = ''blob''\<rparr>]))
       (fst (generateStructureH [\<lparr>path = deepPath 19999, type = ''blob''\<rparr>])) []
     = Inl RangeError
   \<and> filterStructureH asciiToLowerCase 10000
       (snd (generateStructureH [\<lparr>path = deepPath 19999, type = ''blob''\<rparr>]))
       (fst (generateStructureH [\<lparr>path = deepPath 19999, type = ''blob''\<rparr>])) []
     = Inl RangeError"
  by (rule deep_path_exhausts_stack) simp

text \<open>
  C8 (amended): \<open>generateStructureH\<close>, the build with its \<^verbatim>\<open>Map\<close> objects and its
  mutation through references, is a total function, defined by recursion over the
  finite list of items and the finite list of parts of each; it has no operation that
  raises.  In the heap that it returns every reference points to a \<^verbatim>\<open>Map\<close> created
  later, so the structure has no cycle, no \<^verbatim>\<open>Map\<close> is shared, and the heap holds
  exactly the tree \<open>generateStructureMap tree\<close>.  On that heap, for every prefix, every
  term, every lowering function and every size of the stack,
  \<open>buildStructureStringH\<close> and \<open>filterStructureH\<close> come to an end.  They return
  if the stack has room for the first call and for one call more for each level of
  directories below the root (for the rendering, the directories that it enters), and
  the results are then those of \<open>buildStructureString\<close> and \<open>filterStructure\<close> on the
  tree; if the stack is smaller the outcome is \<^verbatim>\<open>RangeError\<close>.
\<close>

theorem C8_returns_unless_stack_exhausted:
  "case generateStructureH tree of (structureMap, h) \<Rightarrow>
     forward h \<and> structureMap < fresh h \<and>
     represents h (objects h structureMap) (generateStructureMap tree) \<and>
     buildStructureStringH stack h structureMap prefix =
       (if renderNesting (generateStructureMap tree) < stack
        then Inr (buildStructureString (generateStructureMap tree) prefix)
        else Inl RangeError) \<and>
     (if filterNesting (generateStructureMap tree) < stack
      then \<exists>filteredMap h'.
             filterStructureH toLowerCase stack h structureMap searchTerm = Inr (filteredMap, h')
             \<and> represents h' (objects h' filteredMap)
                  (filterStructure toLowerCase (generateStructureMap tree) searchTerm)
      else filterStructureH toLowerCase stack h structureMap searchTerm = Inl RangeError)"
proof -
  obtain root h where g: "generateStructureH tree = (root, h)"
    by (cases "generateStructureH tree")
  show ?thesis unfolding g prod.case by (rule outcomes_on_built [OF g])
qed

theorem C8_returns_unless_stack_exhausted_witness:
  "case generateStructureH
          [\<lparr>path = ''a/b.txt'', type = ''blob''\<rparr>, \<lparr>path = ''a/c/d.txt'', type = ''blob''\<rparr>] of
     (structureMap, h) \<Rightarrow>
       (''a'', MapRef 1) \<in> set (objects h structureMap) \<and> structureMap < 1 \<and> 1 < fresh h \<and>
       buildStructureStringH 3 h structureMap [] =
         Inr (generateStructure
           [\<lparr>path = ''a/b.txt'', type = ''blob''\<rparr>, \<lparr>path = ''a/c/d.txt'', type = ''blob''\<rparr>]) \<and>
       buildStructureStringH 2 h structureMap [] = Inl RangeError \<and>
       (\<exists>filteredMap h'.
          filterStructureH asciiToLowerCase 3 h structureMap ''txt'' = Inr (filteredMap, h')) \<and>
       filterStructureH asciiToLowerCase 2 h structureMap ''txt'' = Inl RangeError"
proof -
  let ?tree = "[\<lparr>path = ''a/b.txt'', type = ''blob''\<rparr>, \<lparr>path = ''a/c/d.txt'', type = ''blob''\<rparr>]"
  have M: "generateStructureMap ?tree =
      [(''a'', Dir [(''b.txt'', File), (''c'', Dir [(''d.txt'', File)])])]"
    by (simp add: build_eval)
  show ?thesis
    using C8_returns_unless_stack_exhausted
        [where tree = ?tree and prefix = "[]" and searchTerm = "''txt''" and stack = 3
           and toLowerCase = asciiToLowerCase]
      C8_returns_unless_stack_exhausted
        [where tree = ?tree and prefix = "[]" and searchTerm = "''txt''" and stack = 2
           and toLowerCase = asciiToLowerCase]
    by (auto simp: M generateStructureH_def newMap_def emptyHeap_def setIn_def split_def
          generateStructure_def)
qed


end
